theory Spec2Isabelle
  imports Complex_Main "HOL-Library.Multiset"
begin

section \<open>The seat-lottery engine of the venue map editor\<close>

text \<open>
  This theory embeds \<^verbatim>\<open>client/src/core/lottery.ts\<close>: the geometry scorer, the run
  builder, the group allocator, the tier loops of \<^verbatim>\<open>assignSeats\<close> and the score updater
  \<^verbatim>\<open>calculateScoreUpdates\<close>.

  JavaScript numbers that hold coordinates and scores are modelled as \<^typ>\<open>real\<close>, the
  ones that hold grid coordinates and party sizes as \<^typ>\<open>int\<close>. The rounding of floating
  point arithmetic is modelled where it can decide a result, in the averages that the
  group allocator compares (see \<open>mkChunk\<close>); elsewhere the arithmetic is exact. NaN
  and the infinities are outside the model. An \<^verbatim>\<open>undefined\<close> optional field is
  \<^term>\<open>None\<close>. A function that can raise returns a sum, the exception on the left.
\<close>

subsection \<open>Data model\<close>

datatype SeatQuality = Top | Good | Normal | Back | Far

datatype LastResult = Win | Lose

text \<open>The seat-quality column of a score update is a quality label or the string 'lose'.\<close>

datatype QualityOrLose = Quality SeatQuality | LoseLabel

text \<open>The only exception the engine can raise: a property read on \<^verbatim>\<open>undefined\<close>.\<close>

datatype error = TypeError

record Seat =
  seat_id :: string
  seat_x :: real
  seat_y :: real
  isPremium :: bool
  isDisabled :: bool
  row :: "int option"
  col :: "int option"
  blockId :: "string option"

record SeatWithScore = Seat +
  score :: real
  distanceFromStage :: real

record Application =
  app_id :: string
  groupSize :: int
  isInvitation :: bool
  isRelation :: bool
  pastScore :: real
  lastResult :: "LastResult option"
  memberId :: "string option"
  name :: "string option"
  address :: "string option"
  tags :: "string list option"

text \<open>
  The random source \<^verbatim>\<open>randomFn\<close> is a function without arguments that the engine alone
  calls during a run; it is modelled by the sequence of the numbers it returns, the
  \<open>n\<close>-th call returning \<open>randomFn cfg n\<close>.
\<close>

record LotteryConfig =
  stagePosition :: "real \<times> real"
  skillWeight :: "real option"
  randomFn :: "nat \<Rightarrow> real"

record Assignment =
  applicationId :: string
  seatIds :: "string list"
  totalScore :: real
  tier :: nat
  seatQuality :: "SeatQuality option"

record Stats =
  totalSeats :: nat
  availableSeats :: nat
  totalApplications :: nat
  totalPeopleAssigned :: nat
  averageScore :: real
  tier1Count :: nat
  tier2Count :: nat
  tier3Count :: nat
  tier2OverflowCount :: nat

record LotteryResult =
  assignments :: "Assignment list"
  unassigned :: "string list"
  stats :: Stats

text \<open>
  A chunk is a run of seats with its average score. The source's chunk also carries
  \<^verbatim>\<open>blockId\<close>, \<^verbatim>\<open>row\<close> and \<^verbatim>\<open>startCol\<close>, labels that are written and never read; the
  model keeps the two fields the allocator reads, and the one failure that writing a label
  can raise (see \<open>getSubChunks\<close>).
\<close>

record SeatChunk =
  seats :: "SeatWithScore list"
  avgScore :: real

record ScoreUpdate =
  su_applicationId :: string
  currentScore :: real
  nextScore :: real
  change :: real
  su_seatQuality :: QualityOrLose
  su_lastResult :: LastResult

subsection \<open>Geometry scorer\<close>

definition calculateDistance :: "real \<Rightarrow> real \<Rightarrow> real \<Rightarrow> real \<Rightarrow> real" where
  "calculateDistance x1 y1 x2 y2 = sqrt ((x2 - x1)\<^sup>2 + (y2 - y1)\<^sup>2)"

text \<open>
  \<^verbatim>\<open>calculateSeatScore\<close>. For \<open>maxDistance = 0\<close> JavaScript divides to an infinity or
  NaN, so that the distance score is \<open>0\<close> or NaN, where HOL divides to \<open>0\<close> and the
  distance score is \<open>100\<close>; the model is the code for \<open>maxDistance \<noteq> 0\<close> only, and the
  properties of the scorer are stated under that hypothesis. \<^verbatim>\<open>assignSeats\<close> never passes
  \<open>0\<close>: it passes a maximum that is at least \<open>1\<close>.
\<close>

definition calculateSeatScore :: "Seat \<Rightarrow> real \<times> real \<Rightarrow> real \<Rightarrow> SeatWithScore" where
  "calculateSeatScore seat stage maxDistance =
     (let distance = calculateDistance (seat_x seat) (seat_y seat) (fst stage) (snd stage);
          distanceScore = max 0 (100 - (distance / maxDistance) * 100);
          premiumBonus = (if isPremium seat then 1000 else 0)
      in \<lparr> seat_id = seat_id seat, seat_x = seat_x seat, seat_y = seat_y seat,
           isPremium = isPremium seat, isDisabled = isDisabled seat,
           row = row seat, col = col seat, blockId = blockId seat,
           score = distanceScore + premiumBonus, distanceFromStage = distance \<rparr>)"

subsection \<open>Run builder\<close>

text \<open>
  \<^verbatim>\<open>Array.prototype.slice(start, end)\<close>: a negative index counts from the end, and both
  indices are clipped to the array.
\<close>

definition js_slice :: "'a list \<Rightarrow> int \<Rightarrow> int \<Rightarrow> 'a list" where
  "js_slice xs start fin =
     (let len = int (length xs);
          k = (if start < 0 then max (len + start) 0 else min start len);
          final = (if fin < 0 then max (len + fin) 0 else min fin len)
      in take (nat (final - k)) (drop (nat k) xs))"

text \<open>
  The decimal notation of an integer, as a template literal prints a grid coordinate
  (integers below \<open>10\<^sup>2\<^sup>1\<close> in absolute value).
\<close>

fun show_nat :: "nat \<Rightarrow> string" where
  "show_nat n =
     (if n < 10 then [''0123456789'' ! n]
      else show_nat (n div 10) @ [''0123456789'' ! (n mod 10)])"

declare show_nat.simps [simp del]

definition show_int :: "int \<Rightarrow> string" where
  "show_int i = (if i < 0 then ''-'' @ show_nat (nat (- i)) else show_nat (nat i))"

text \<open>\<^verbatim>\<open>seat.col ?? 0\<close> and the grouping key \<^verbatim>\<open>`${seat.blockId ?? 'default'}_${seat.row ?? 0}`\<close>.\<close>

definition colOr0 :: "SeatWithScore \<Rightarrow> int" where
  "colOr0 s = (case col s of None \<Rightarrow> 0 | Some c \<Rightarrow> c)"

definition chunkKey :: "SeatWithScore \<Rightarrow> string" where
  "chunkKey s =
     (case blockId s of None \<Rightarrow> ''default'' | Some b \<Rightarrow> b) @ ''_'' @
     show_int (case row s of None \<Rightarrow> 0 | Some r \<Rightarrow> r)"

text \<open>
  The \<^verbatim>\<open>Map\<close> from keys to seat arrays keeps its keys in insertion order; it is an
  association list. \<open>groupPush\<close> is the body of the first loop of \<^verbatim>\<open>buildAllChunks\<close>.
\<close>

fun groupPush :: "(string \<times> SeatWithScore list) list \<Rightarrow> string \<Rightarrow> SeatWithScore
    \<Rightarrow> (string \<times> SeatWithScore list) list" where
  "groupPush [] k s = [(k, [s])]"
| "groupPush ((k', v) # rest) k s =
     (if k' = k then (k', v @ [s]) # rest else (k', v) # groupPush rest k s)"

definition grouped :: "SeatWithScore list \<Rightarrow> (string \<times> SeatWithScore list) list" where
  "grouped ss = fold (\<lambda>s g. groupPush g (chunkKey s) s) ss []"

text \<open>
  A chunk object as both builders make it, with
  \<^verbatim>\<open>avgScore: seats.reduce((sum, s) => sum + s.score, 0) / seats.length\<close>. The scores
  are doubles, and every addition, the division and the two operations of the solo bonus
  round their exact result. The allocator is therefore written over a rounding function
  \<open>fl\<close>, applied to the exact result of each such operation: with the rounding of
  IEEE 754 double arithmetic for \<open>fl\<close> it is the code, with the identity it computes in
  exact arithmetic. Comparing two doubles and \<^verbatim>\<open>Math.max\<close> do not round, and the sign
  of \<^verbatim>\<open>b.avgScore - a.avgScore\<close> is the sign of the exact difference.
\<close>

definition mkChunk :: "(real \<Rightarrow> real) \<Rightarrow> SeatWithScore list \<Rightarrow> SeatChunk" where
  "mkChunk fl ss =
     \<lparr> seats = ss,
       avgScore = fl (foldl (\<lambda>acc s. fl (acc + score s)) 0 ss / real (length ss)) \<rparr>"

text \<open>
  The inner loop of \<^verbatim>\<open>buildAllChunks\<close> over one sorted row: \<open>i\<close> runs from \<open>1\<close> to the
  length of the row, and a chunk is closed at the end of the row and wherever the column
  does not follow the previous one.
\<close>

function scanRow :: "(real \<Rightarrow> real) \<Rightarrow> SeatWithScore list \<Rightarrow> nat \<Rightarrow> nat \<Rightarrow> SeatChunk list" where
  "scanRow fl rowSeats chunkStart i =
     (if i \<le> length rowSeats then
        (let isEnd = (i = length rowSeats);
             isBreak = (\<not> isEnd \<and> colOr0 (rowSeats ! i) \<noteq> colOr0 (rowSeats ! (i - 1)) + 1)
         in if isEnd \<or> isBreak
            then mkChunk fl (js_slice rowSeats (int chunkStart) (int i)) # scanRow fl rowSeats i (i + 1)
            else scanRow fl rowSeats chunkStart (i + 1))
      else [])"
  by pat_completeness auto
termination
  by (relation "measure (\<lambda>(fl, r, c, i). Suc (length r) - i)") auto

declare scanRow.simps [simp del]

text \<open>
  \<^verbatim>\<open>rowSeats.sort\<close> with the comparator \<^verbatim>\<open>(a.col ?? 0) - (b.col ?? 0)\<close> is a stable
  ascending sort on the column, which \<^const>\<open>sort_key\<close> is.
\<close>

definition buildAllChunks :: "(real \<Rightarrow> real) \<Rightarrow> SeatWithScore list \<Rightarrow> SeatChunk list" where
  "buildAllChunks fl ss =
     concat (map (\<lambda>(key, rowSeats). scanRow fl (sort_key colOr0 rowSeats) 0 1) (grouped ss))"

text \<open>
  \<^verbatim>\<open>getSubChunks\<close>. Every sub-chunk is built with \<^verbatim>\<open>startCol: subSeats[0].col ?? 0\<close>, which
  raises a TypeError when the slice \<open>subSeats\<close> is empty; that happens for a size below \<open>1\<close>.
  In \<^verbatim>\<open>buildAllChunks\<close> the same expression reads a slice that is never empty.
\<close>

definition getSubChunks :: "(real \<Rightarrow> real) \<Rightarrow> SeatChunk \<Rightarrow> int \<Rightarrow> error + SeatChunk list" where
  "getSubChunks fl chunk sz =
     (if int (length (seats chunk)) < sz then Inr []
      else (let subSeats = map (\<lambda>i. js_slice (seats chunk) i (i + sz))
                             [0 .. int (length (seats chunk)) - sz]
            in if [] \<in> set subSeats then Inl TypeError else Inr (map (mkChunk fl) subSeats)))"

subsection \<open>Group allocator\<close>

text \<open>The grid key \<^verbatim>\<open>`${s.blockId}_${s.row}_${s.col}`\<close> and the two lookup maps.\<close>

definition gridKey :: "string \<Rightarrow> int \<Rightarrow> int \<Rightarrow> string" where
  "gridKey b r c = b @ ''_'' @ show_int r @ ''_'' @ show_int c"

definition seatMap :: "SeatWithScore list \<Rightarrow> (string \<rightharpoonup> SeatWithScore)" where
  "seatMap ss = fold (\<lambda>s m. m(seat_id s \<mapsto> s)) ss Map.empty"

definition gridMap :: "SeatWithScore list \<Rightarrow> (string \<rightharpoonup> string)" where
  "gridMap ss =
     fold (\<lambda>s m. case (blockId s, row s, col s) of
                    (Some b, Some r, Some c) \<Rightarrow> m(gridKey b r c \<mapsto> seat_id s)
                  | _ \<Rightarrow> m) ss Map.empty"

text \<open>The eight neighbours, in the order of the loops over \<open>dr\<close> and \<open>dc\<close>.\<close>

definition neighbourOffsets :: "(int \<times> int) list" where
  "neighbourOffsets = [(-1, -1), (-1, 0), (-1, 1), (0, -1), (0, 1), (1, -1), (1, 0), (1, 1)]"

text \<open>
  The ids that one seated solo attendee adds to \<^verbatim>\<open>soloAdjacentIds\<close>. The test
  \<^verbatim>\<open>nId && !assignedSeatIds.has(nId)\<close> drops the empty id, which is falsy.
\<close>

definition soloAdjacent :: "SeatWithScore list \<Rightarrow> string set \<Rightarrow> string \<Rightarrow> string set" where
  "soloAdjacent ss assigned soloId =
     (case seatMap ss soloId of
        None \<Rightarrow> {}
      | Some seat \<Rightarrow>
          (case (blockId seat, row seat, col seat) of
             (Some b, Some r, Some c) \<Rightarrow>
               set (concat (map (\<lambda>(dr, dc).
                      case gridMap ss (gridKey b (r + dr) (c + dc)) of
                        None \<Rightarrow> []
                      | Some nId \<Rightarrow> if nId \<noteq> [] \<and> nId \<notin> assigned then [nId] else [])
                    neighbourOffsets))
           | _ \<Rightarrow> {}))"

definition soloAdjacentIds :: "SeatWithScore list \<Rightarrow> string set \<Rightarrow> string set \<Rightarrow> string set" where
  "soloAdjacentIds ss assigned solo = (\<Union>soloId \<in> solo. soloAdjacent ss assigned soloId)"

text \<open>
  The bonus of 20 percent of \<^verbatim>\<open>Math.max(...avgScores, 1)\<close>, added to the candidates
  whose first seat is adjacent to a seated solo attendee.
\<close>

definition applySoloBonus :: "(real \<Rightarrow> real) \<Rightarrow> SeatChunk list \<Rightarrow> string set \<Rightarrow> SeatChunk list" where
  "applySoloBonus fl cands adj =
     (if adj \<noteq> {} then
        (let maxScore = fold max (map avgScore cands) 1;
             bonus = fl (maxScore * fl 0.2)
         in map (\<lambda>chunk. case seats chunk of
                    [] \<Rightarrow> chunk
                  | s # _ \<Rightarrow> if seat_id s \<noteq> [] \<and> seat_id s \<in> adj
                             then chunk\<lparr> avgScore := fl (avgScore chunk + bonus) \<rparr> else chunk)
              cands)
      else cands)"

text \<open>
  The loop that pushes the sub-chunks of every chunk on \<^verbatim>\<open>candidateChunks\<close>: the candidates
  in the order the source enumerates them, before the bonus.
\<close>

fun collectSubChunks :: "(real \<Rightarrow> real) \<Rightarrow> int \<Rightarrow> SeatChunk list \<Rightarrow> error + SeatChunk list" where
  "collectSubChunks fl gs [] = Inr []"
| "collectSubChunks fl gs (chunk # rest) =
     (case getSubChunks fl chunk gs of
        Inl e \<Rightarrow> Inl e
      | Inr subs \<Rightarrow>
          (case collectSubChunks fl gs rest of
             Inl e \<Rightarrow> Inl e
           | Inr others \<Rightarrow> Inr (subs @ others)))"

definition candidateChunks :: "(real \<Rightarrow> real) \<Rightarrow> int \<Rightarrow> SeatWithScore list
    \<Rightarrow> error + SeatChunk list" where
  "candidateChunks fl gs available = collectSubChunks fl gs (buildAllChunks fl available)"

text \<open>The candidates as they stand when the source sorts them, after the bonus.\<close>

definition bonusCandidates :: "(real \<Rightarrow> real) \<Rightarrow> int \<Rightarrow> SeatWithScore list \<Rightarrow> string set
    \<Rightarrow> string set option \<Rightarrow> SeatChunk list \<Rightarrow> SeatChunk list" where
  "bonusCandidates fl gs scoredSeats assigned solo cands =
     (case solo of
        None \<Rightarrow> cands
      | Some soloIds \<Rightarrow>
          if gs = 1 \<and> soloIds \<noteq> {}
          then applySoloBonus fl cands (soloAdjacentIds scoredSeats assigned soloIds)
          else cands)"

text \<open>
  \<^verbatim>\<open>findAndAllocateSeats\<close>. The sort with the comparator \<^verbatim>\<open>b.avgScore - a.avgScore\<close> is
  a stable descending sort on the average score.
\<close>

definition findAndAllocateSeats :: "(real \<Rightarrow> real) \<Rightarrow> int \<Rightarrow> SeatWithScore list \<Rightarrow> string set
    \<Rightarrow> string set option \<Rightarrow> error + SeatWithScore list option" where
  "findAndAllocateSeats fl gs scoredSeats assigned solo =
     (let available = filter (\<lambda>s. seat_id s \<notin> assigned) scoredSeats
      in if int (length available) < gs then Inr None
         else (case candidateChunks fl gs available of
                 Inl e \<Rightarrow> Inl e
               | Inr cands \<Rightarrow>
                   if cands = [] then Inr None
                   else Inr (Some (seats (hd (sort_key (\<lambda>c. - avgScore c)
                          (bonusCandidates fl gs scoredSeats assigned solo cands)))))))"

subsection \<open>Tier classifier and hybrid selector\<close>

text \<open>The classification loop of Step 4, pushing each applicant on one of three arrays.\<close>

fun classify :: "Application list
    \<Rightarrow> Application list \<times> Application list \<times> Application list
    \<Rightarrow> Application list \<times> Application list \<times> Application list" where
  "classify [] acc = acc"
| "classify (app # rest) (tier1Apps, tier2Apps, tier3Apps) =
     (if isInvitation app \<or> isRelation app then classify rest (tier1Apps @ [app], tier2Apps, tier3Apps)
      else if lastResult app = Some Lose then classify rest (tier1Apps, tier2Apps @ [app], tier3Apps)
      else classify rest (tier1Apps, tier2Apps, tier3Apps @ [app]))"

text \<open>
  The Fisher-Yates loop over the priority tier, \<open>i\<close> running down to \<open>1\<close>; \<open>k\<close> counts the
  calls of the random source. When the index \<open>j\<close> falls outside the array, the
  destructuring swap stores \<^verbatim>\<open>undefined\<close> at \<open>i\<close> and the applicant under a key of no
  later loop index, so the array still holds \<^verbatim>\<open>undefined\<close> when the Tier-1 loop reads
  \<^verbatim>\<open>app.groupSize\<close>: the run ends in a TypeError.
\<close>

fun fisherYates :: "(nat \<Rightarrow> real) \<Rightarrow> nat \<Rightarrow> nat \<Rightarrow> Application list
    \<Rightarrow> error + (Application list \<times> nat)" where
  "fisherYates rnd k 0 xs = Inr (xs, k)"
| "fisherYates rnd k (Suc i) xs =
     (let j = \<lfloor>rnd k * real (Suc i + 1)\<rfloor>
      in if 0 \<le> j \<and> j < int (length xs)
         then fisherYates rnd (k + 1) i (xs[Suc i := xs ! nat j, nat j := xs ! Suc i])
         else Inl TypeError)"

text \<open>
  The loop of \<^verbatim>\<open>hybridSelection\<close>. An index outside \<open>remaining\<close> selects
  \<^verbatim>\<open>undefined\<close> (\<^term>\<open>None\<close>), whose \<^verbatim>\<open>indexOf\<close> is \<open>-1\<close>, so that \<^verbatim>\<open>splice(-1, 1)\<close>
  drops the last candidate. The applicants are distinct objects, so \<^verbatim>\<open>indexOf\<close> finds
  the chosen one at the index it was read from.
\<close>

function hybridLoop :: "real \<Rightarrow> (nat \<Rightarrow> real) \<Rightarrow> nat \<Rightarrow> Application list
    \<Rightarrow> Application option list \<Rightarrow> Application option list \<times> nat" where
  "hybridLoop w rnd k remaining selected =
     (if remaining = [] then (selected, k)
      else if rnd k < w
        then hybridLoop w rnd (k + 1) (tl remaining) (selected @ [Some (hd remaining)])
      else (let randomIndex = \<lfloor>rnd (k + 1) * real (length remaining)\<rfloor>
            in if 0 \<le> randomIndex \<and> randomIndex < int (length remaining)
               then hybridLoop w rnd (k + 2)
                      (take (nat randomIndex) remaining @ drop (Suc (nat randomIndex)) remaining)
                      (selected @ [Some (remaining ! nat randomIndex)])
               else hybridLoop w rnd (k + 2) (butlast remaining) (selected @ [None])))"
  by pat_completeness auto
termination
proof (relation "measure (\<lambda>(w, rnd, k, remaining, selected). length remaining)")
  fix w :: real and rnd :: "nat \<Rightarrow> real" and k :: nat
    and remaining :: "Application list" and selected :: "Application option list"
    and x :: int
  assume "remaining \<noteq> []" "x = \<lfloor>rnd (k + 1) * real (length remaining)\<rfloor>"
    "0 \<le> x \<and> x < int (length remaining)"
  then have "nat x < length remaining"
    by linarith
  then show "((w, rnd, k + 2, take (nat x) remaining @ drop (Suc (nat x)) remaining,
               selected @ [Some (remaining ! nat x)]),
              (w, rnd, k, remaining, selected))
             \<in> measure (\<lambda>(w, rnd, k, remaining, selected). length remaining)"
    by simp
qed auto

declare hybridLoop.simps [simp del]

definition hybridSelection :: "Application list \<Rightarrow> real \<Rightarrow> (nat \<Rightarrow> real) \<Rightarrow> nat
    \<Rightarrow> Application option list \<times> nat" where
  "hybridSelection candidates w rnd k =
     hybridLoop w rnd k (sort_key (\<lambda>a. - pastScore a) candidates) []"

subsection \<open>Quality rater\<close>

definition qualityOfRank :: "nat \<Rightarrow> nat \<Rightarrow> SeatQuality" where
  "qualityOfRank i cnt =
     (let percentile = (real i / real cnt) * 100
      in if percentile < 15 then Top
         else if percentile < 40 then Good
         else if percentile < 60 then Normal
         else if percentile < 85 then Back
         else Far)"

text \<open>
  \<^verbatim>\<open>assignSeatQuality\<close> labels the assignment objects in place through the filtered and
  sorted array (a stable descending sort on the score); the model carries the index of each
  assignment in the original array.
\<close>

definition assignSeatQuality :: "Assignment list \<Rightarrow> Assignment list" where
  "assignSeatQuality asgs =
     (let nonVipAssignments = filter (\<lambda>(i, a). tier a \<noteq> 1) (zip [0 ..< length asgs] asgs);
          ranked = sort_key (\<lambda>(i, a). - totalScore a) nonVipAssignments;
          cnt = length ranked
      in fold (\<lambda>(rank, (i, a)) acc.
                 acc[i := (acc ! i)\<lparr> seatQuality := Some (qualityOfRank rank cnt) \<rparr>])
           (zip [0 ..< cnt] ranked) asgs)"

subsection \<open>Main lottery function\<close>

text \<open>
  The mutable locals of \<^verbatim>\<open>assignSeats\<close> that the helper \<^verbatim>\<open>allocateApp\<close> and the three
  tier loops update. \<open>st_attempts\<close> is a history variable, not a variable of the source:
  \<open>allocateApp\<close> appends the applicant and the tier at each call, so the list is the order
  in which the source calls \<^verbatim>\<open>allocateApp\<close>.
\<close>

record AllocState =
  st_assignments :: "Assignment list"
  st_assignedSeatIds :: "string set"
  st_soloSeatIds :: "string set"
  st_unassigned :: "string list"
  st_tier2OverflowCount :: nat
  st_attempts :: "(Application \<times> nat) list"

definition initState :: AllocState where
  "initState = \<lparr> st_assignments = [], st_assignedSeatIds = {}, st_soloSeatIds = {},
                 st_unassigned = [], st_tier2OverflowCount = 0, st_attempts = [] \<rparr>"

text \<open>
  The helper \<^verbatim>\<open>allocateApp\<close> of \<^verbatim>\<open>assignSeats\<close>. The lottery is modelled in exact
  arithmetic, so the allocator is called without rounding here. Of the allocator, the
  invariants of the tier loops use only that the seats it returns are available and as
  many as the party size (\<open>findAndAllocateSeats_seats\<close>), which holds under every rounding.
\<close>

definition allocateApp :: "SeatWithScore list \<Rightarrow> Application \<Rightarrow> nat \<Rightarrow> AllocState
    \<Rightarrow> error + bool \<times> AllocState" where
  "allocateApp scoredSeats app t st =
     (case findAndAllocateSeats id (groupSize app) scoredSeats (st_assignedSeatIds st)
             (if groupSize app = 1 then Some (st_soloSeatIds st) else None) of
        Inl e \<Rightarrow> Inl e
      | Inr (Some allocated) \<Rightarrow>
          Inr (True,
           st\<lparr> st_assignedSeatIds := st_assignedSeatIds st \<union> set (map seat_id allocated),
               st_soloSeatIds := (if groupSize app = 1
                                  then st_soloSeatIds st \<union> set (map seat_id allocated)
                                  else st_soloSeatIds st),
               st_assignments := st_assignments st @
                 [\<lparr> applicationId = app_id app, seatIds = map seat_id allocated,
                    totalScore = sum_list (map score allocated) / real (length allocated),
                    tier = t, seatQuality = None \<rparr>],
               st_attempts := st_attempts st @ [(app, t)] \<rparr>)
      | Inr None \<Rightarrow> Inr (False, st\<lparr> st_attempts := st_attempts st @ [(app, t)] \<rparr>))"

text \<open>
  Steps 5, 6 and 7: the three loops over the ordered tiers. A TypeError raised inside
  \<^verbatim>\<open>allocateApp\<close> ends the run.
\<close>

fun tier1Loop :: "SeatWithScore list \<Rightarrow> Application list \<Rightarrow> AllocState
    \<Rightarrow> error + AllocState" where
  "tier1Loop scoredSeats [] st = Inr st"
| "tier1Loop scoredSeats (app # rest) st =
     (case allocateApp scoredSeats app 1 st of
        Inl e \<Rightarrow> Inl e
      | Inr (True, st') \<Rightarrow> tier1Loop scoredSeats rest st'
      | Inr (False, st') \<Rightarrow>
          tier1Loop scoredSeats rest (st'\<lparr> st_unassigned := st_unassigned st' @ [app_id app] \<rparr>))"

fun tier2Loop :: "SeatWithScore list \<Rightarrow> Application list \<Rightarrow> AllocState
    \<Rightarrow> error + AllocState" where
  "tier2Loop scoredSeats [] st = Inr st"
| "tier2Loop scoredSeats (app # rest) st =
     (case allocateApp scoredSeats app 2 st of
        Inl e \<Rightarrow> Inl e
      | Inr (True, st') \<Rightarrow> tier2Loop scoredSeats rest st'
      | Inr (False, st') \<Rightarrow>
          tier2Loop scoredSeats rest
            (st'\<lparr> st_unassigned := st_unassigned st' @ [app_id app],
                 st_tier2OverflowCount := st_tier2OverflowCount st' + 1 \<rparr>))"

text \<open>
  The Tier-3 loop runs over the output of the hybrid selector; reading \<^verbatim>\<open>app.groupSize\<close>
  of an \<^verbatim>\<open>undefined\<close> entry raises the TypeError.
\<close>

fun tier3Loop :: "SeatWithScore list \<Rightarrow> Application option list \<Rightarrow> AllocState
    \<Rightarrow> error + AllocState" where
  "tier3Loop scoredSeats [] st = Inr st"
| "tier3Loop scoredSeats (None # rest) st = Inl TypeError"
| "tier3Loop scoredSeats (Some app # rest) st =
     (case allocateApp scoredSeats app 3 st of
        Inl e \<Rightarrow> Inl e
      | Inr (True, st') \<Rightarrow> tier3Loop scoredSeats rest st'
      | Inr (False, st') \<Rightarrow>
          tier3Loop scoredSeats rest (st'\<lparr> st_unassigned := st_unassigned st' @ [app_id app] \<rparr>))"

text \<open>
  Steps 4 to 7 on the scored seats; the random source is called from its first number on.
  The source calls \<^verbatim>\<open>hybridSelection\<close> between the Tier-2 loop and the Tier-3 loop; it
  reads the random source and the open tier only.
\<close>

definition runAllocation :: "SeatWithScore list \<Rightarrow> Application list \<Rightarrow> real \<Rightarrow> (nat \<Rightarrow> real)
    \<Rightarrow> error + AllocState" where
  "runAllocation scoredSeats applications w rnd =
     (case classify applications ([], [], []) of
        (tier1Apps, tier2Apps, tier3Apps) \<Rightarrow>
          (case fisherYates rnd 0 (length tier1Apps - 1) tier1Apps of
             Inl e \<Rightarrow> Inl e
           | Inr (tier1Shuffled, k) \<Rightarrow>
               (case tier1Loop scoredSeats tier1Shuffled initState of
                  Inl e \<Rightarrow> Inl e
                | Inr st1 \<Rightarrow>
                    (case tier2Loop scoredSeats (sort_key (\<lambda>a. - pastScore a) tier2Apps) st1 of
                       Inl e \<Rightarrow> Inl e
                     | Inr st2 \<Rightarrow>
                         tier3Loop scoredSeats (fst (hybridSelection tier3Apps w rnd k)) st2))))"

text \<open>\<^verbatim>\<open>Math.max(...xs)\<close> of a non-empty array.\<close>

definition mathMax :: "real list \<Rightarrow> real" where
  "mathMax xs = fold max (tl xs) (hd xs)"

text \<open>Steps 2 and 3: the largest distance, \<open>1\<close> in place of \<open>0\<close>, and the scores.\<close>

definition scoreSeats :: "Seat list \<Rightarrow> real \<times> real \<Rightarrow> SeatWithScore list" where
  "scoreSeats availableSeatList stage =
     (let m = mathMax (map (\<lambda>s. calculateDistance (seat_x s) (seat_y s) (fst stage) (snd stage))
                         availableSeatList);
          maxDistance = (if m = 0 then 1 else m)
      in map (\<lambda>seat. calculateSeatScore seat stage maxDistance) availableSeatList)"

definition assignSeats :: "Seat list \<Rightarrow> Application list \<Rightarrow> LotteryConfig
    \<Rightarrow> error + LotteryResult" where
  "assignSeats seatList applications config =
     (let w = (case skillWeight config of None \<Rightarrow> 0.70 | Some v \<Rightarrow> v);
          availableSeatList = filter (\<lambda>s. \<not> isDisabled s) seatList
      in if length availableSeatList = 0 \<or> length applications = 0 then
           Inr \<lparr> assignments = [], unassigned = map app_id applications,
                 stats = \<lparr> totalSeats = length seatList, availableSeats = 0,
                           totalApplications = length applications, totalPeopleAssigned = 0,
                           averageScore = 0, tier1Count = 0, tier2Count = 0, tier3Count = 0,
                           tier2OverflowCount = 0 \<rparr> \<rparr>
         else
           (case runAllocation (scoreSeats availableSeatList (stagePosition config))
                   applications w (randomFn config) of
              Inl e \<Rightarrow> Inl e
            | Inr st \<Rightarrow>
                (let asgs = assignSeatQuality (st_assignments st)
                 in Inr \<lparr> assignments = asgs, unassigned = st_unassigned st,
                          stats = \<lparr> totalSeats = length seatList,
                                    availableSeats = length availableSeatList,
                                    totalApplications = length applications,
                                    totalPeopleAssigned = sum_list (map (\<lambda>a. length (seatIds a)) asgs),
                                    averageScore = (if length asgs > 0
                                       then sum_list (map totalScore asgs) / real (length asgs)
                                       else 0),
                                    tier1Count = length (filter (\<lambda>a. tier a = 1) asgs),
                                    tier2Count = length (filter (\<lambda>a. tier a = 2) asgs),
                                    tier3Count = length (filter (\<lambda>a. tier a = 3) asgs),
                                    tier2OverflowCount = st_tier2OverflowCount st \<rparr> \<rparr>)))"

subsection \<open>Score updater\<close>

definition qualityChange :: "SeatQuality \<Rightarrow> real" where
  "qualityChange q = (case q of Top \<Rightarrow> - 4.0 | Good \<Rightarrow> - 1.5 | Normal \<Rightarrow> 0 | Back \<Rightarrow> 1.5 | Far \<Rightarrow> 4.0)"

definition loseChange :: real where "loseChange = 6.0"

definition minScore :: real where "minScore = 1.0"

definition maxScore :: real where "maxScore = 10.0"

text \<open>The first loop of \<^verbatim>\<open>calculateScoreUpdates\<close>, over the assignments.\<close>

fun winUpdates :: "Application list \<Rightarrow> Assignment list \<Rightarrow> ScoreUpdate list" where
  "winUpdates applications [] = []"
| "winUpdates applications (a # rest) =
     (case find (\<lambda>ap. app_id ap = applicationId a) applications of
        None \<Rightarrow> winUpdates applications rest
      | Some app \<Rightarrow>
          (if isInvitation app \<or> isRelation app then
             \<lparr> su_applicationId = applicationId a, currentScore = pastScore app,
               nextScore = pastScore app, change = 0,
               su_seatQuality = Quality (case seatQuality a of None \<Rightarrow> Normal | Some q \<Rightarrow> q),
               su_lastResult = Win \<rparr> # winUpdates applications rest
           else
             (let quality = (case seatQuality a of None \<Rightarrow> Normal | Some q \<Rightarrow> q);
                  nextRaw = pastScore app + qualityChange quality;
                  next = max minScore (min maxScore nextRaw)
              in \<lparr> su_applicationId = applicationId a, currentScore = pastScore app,
                   nextScore = next, change = next - pastScore app,
                   su_seatQuality = Quality quality, su_lastResult = Win \<rparr>
                 # winUpdates applications rest)))"

text \<open>The second loop, over the unassigned ids.\<close>

fun loseUpdates :: "Application list \<Rightarrow> string list \<Rightarrow> ScoreUpdate list" where
  "loseUpdates applications [] = []"
| "loseUpdates applications (i # rest) =
     (case find (\<lambda>ap. app_id ap = i) applications of
        None \<Rightarrow> loseUpdates applications rest
      | Some app \<Rightarrow>
          (if isInvitation app \<or> isRelation app then
             \<lparr> su_applicationId = i, currentScore = pastScore app,
               nextScore = pastScore app, change = 0,
               su_seatQuality = LoseLabel, su_lastResult = Lose \<rparr> # loseUpdates applications rest
           else
             (let nextRaw = pastScore app + loseChange;
                  next = max minScore (min maxScore nextRaw)
              in \<lparr> su_applicationId = i, currentScore = pastScore app,
                   nextScore = next, change = next - pastScore app,
                   su_seatQuality = LoseLabel, su_lastResult = Lose \<rparr>
                 # loseUpdates applications rest)))"

definition calculateScoreUpdates :: "Assignment list \<Rightarrow> string list \<Rightarrow> Application list
    \<Rightarrow> ScoreUpdate list" where
  "calculateScoreUpdates asgs unassignedIds applications =
     winUpdates applications asgs @ loseUpdates applications unassignedIds"

subsection \<open>Vocabulary of the properties\<close>

text \<open>The clamp, the table of quality deltas and the priority test, in the specification's words.\<close>

definition clamp :: "real \<Rightarrow> real \<Rightarrow> real \<Rightarrow> real" where
  "clamp v lo hi = max lo (min hi v)"

definition specDelta :: "SeatQuality \<Rightarrow> real" where
  "specDelta q = (case q of Top \<Rightarrow> - 4 | Good \<Rightarrow> - (3 / 2) | Normal \<Rightarrow> 0 | Back \<Rightarrow> 3 / 2 | Far \<Rightarrow> 4)"

definition isPriority :: "Application \<Rightarrow> bool" where
  "isPriority app = (isInvitation app \<or> isRelation app)"

text \<open>The label the score updater reads off an assignment: an absent label counts as normal.\<close>

definition labelOf :: "Assignment \<Rightarrow> SeatQuality" where
  "labelOf a = (case seatQuality a of None \<Rightarrow> Normal | Some q \<Rightarrow> q)"

text \<open>The application that \<^verbatim>\<open>applications.find\<close> returns for an id: the first with that id.\<close>

definition matchedApp :: "Application list \<Rightarrow> string \<Rightarrow> Application option" where
  "matchedApp apps i = find (\<lambda>ap. app_id ap = i) apps"

subsection \<open>Concrete inputs\<close>

definition seatAt :: "string \<Rightarrow> real \<Rightarrow> real \<Rightarrow> bool \<Rightarrow> Seat" where
  "seatAt i px py prem = \<lparr> seat_id = i, seat_x = px, seat_y = py, isPremium = prem,
      isDisabled = False, row = None, col = None, blockId = None \<rparr>"

definition mkApp :: "string \<Rightarrow> int \<Rightarrow> bool \<Rightarrow> bool \<Rightarrow> real \<Rightarrow> LastResult option
    \<Rightarrow> Application" where
  "mkApp i gs invit relat ps lr = \<lparr> app_id = i, groupSize = gs, isInvitation = invit, isRelation = relat,
      pastScore = ps, lastResult = lr, memberId = None, name = None, address = None,
      tags = None \<rparr>"

definition mkAssignment :: "string \<Rightarrow> string list \<Rightarrow> nat \<Rightarrow> SeatQuality option \<Rightarrow> Assignment" where
  "mkAssignment i sids t q = \<lparr> applicationId = i, seatIds = sids, totalScore = 0, tier = t,
      seatQuality = q \<rparr>"

subsection \<open>Vocabulary of the score updater's properties\<close>

text \<open>
  The score update the specification prescribes for a seated applicant and for an unseated
  one: the clamp of the past score plus the delta, or the past score itself for a priority
  applicant.
\<close>

definition winUpdateOf :: "Assignment \<Rightarrow> Application \<Rightarrow> ScoreUpdate \<Rightarrow> bool" where
  "winUpdateOf a app u \<longleftrightarrow>
     su_applicationId u = applicationId a \<and> su_lastResult u = Win
     \<and> su_seatQuality u = Quality (labelOf a) \<and> currentScore u = pastScore app
     \<and> nextScore u = (if isPriority app then pastScore app
                       else clamp (pastScore app + specDelta (labelOf a)) 1 10)
     \<and> change u = nextScore u - pastScore app"

definition loseUpdateOf :: "string \<Rightarrow> Application \<Rightarrow> ScoreUpdate \<Rightarrow> bool" where
  "loseUpdateOf i app u \<longleftrightarrow>
     su_applicationId u = i \<and> su_lastResult u = Lose
     \<and> su_seatQuality u = LoseLabel \<and> currentScore u = pastScore app
     \<and> nextScore u = (if isPriority app then pastScore app
                       else clamp (pastScore app + 6) 1 10)
     \<and> change u = nextScore u - pastScore app"

text \<open>The update that one iteration of each loop pushes.\<close>

definition winEntry :: "Application list \<Rightarrow> Assignment \<Rightarrow> ScoreUpdate" where
  "winEntry apps a = hd (winUpdates apps [a])"

definition loseEntry :: "Application list \<Rightarrow> string \<Rightarrow> ScoreUpdate" where
  "loseEntry apps i = hd (loseUpdates apps [i])"

text \<open>Seats with a score given directly, with and without grid coordinates.\<close>

definition scoredSeat :: "string \<Rightarrow> string \<Rightarrow> int \<Rightarrow> int \<Rightarrow> real \<Rightarrow> SeatWithScore" where
  "scoredSeat i b r c sc = \<lparr> seat_id = i, seat_x = 0, seat_y = 0, isPremium = False,
      isDisabled = False, row = Some r, col = Some c, blockId = Some b,
      score = sc, distanceFromStage = 0 \<rparr>"

definition bareSeat :: "string \<Rightarrow> string option \<Rightarrow> int option \<Rightarrow> int option \<Rightarrow> real \<Rightarrow> SeatWithScore" where
  "bareSeat i b r c sc = \<lparr> seat_id = i, seat_x = 0, seat_y = 0, isPremium = False,
      isDisabled = False, row = r, col = c, blockId = b, score = sc, distanceFromStage = 0 \<rparr>"

definition gridSeat :: "string \<Rightarrow> real \<Rightarrow> real \<Rightarrow> string \<Rightarrow> int \<Rightarrow> int \<Rightarrow> Seat" where
  "gridSeat i px py b r c = \<lparr> seat_id = i, seat_x = px, seat_y = py, isPremium = False,
      isDisabled = False, row = Some r, col = Some c, blockId = Some b \<rparr>"

text \<open>A configuration whose random source always returns \<open>0\<close>.\<close>

definition fixedConfig :: LotteryConfig where
  "fixedConfig = \<lparr> stagePosition = (0, 0), skillWeight = None, randomFn = (\<lambda>n. 0) \<rparr>"

definition chunkSeatIds :: "SeatChunk \<Rightarrow> string list" where
  "chunkSeatIds c = map seat_id (seats c)"

subsection \<open>Vocabulary of the allocation properties\<close>

text \<open>
  The block and the row at which the run builder reads a seat: an undefined block is the
  block \<^verbatim>\<open>'default'\<close>, an undefined row the row \<open>0\<close>.
\<close>

definition blockOf :: "SeatWithScore \<Rightarrow> string" where
  "blockOf s = (case blockId s of None \<Rightarrow> ''default'' | Some b \<Rightarrow> b)"

definition rowOf :: "SeatWithScore \<Rightarrow> int" where
  "rowOf s = (case row s of None \<Rightarrow> 0 | Some r \<Rightarrow> r)"

text \<open>The columns of a run, an undefined column read as \<open>0\<close>, increase by exactly one.\<close>

definition consecutiveCols :: "SeatWithScore list \<Rightarrow> bool" where
  "consecutiveCols ss \<longleftrightarrow> (\<forall>i. Suc i < length ss \<longrightarrow> colOr0 (ss ! Suc i) = colOr0 (ss ! i) + 1)"

text \<open>
  A contiguous run: seats of one block and one row whose columns increase by exactly one
  from each seat to the next.
\<close>

definition contiguousRun :: "SeatWithScore list \<Rightarrow> bool" where
  "contiguousRun xs \<longleftrightarrow>
     consecutiveCols xs
     \<and> (\<forall>s \<in> set xs. \<forall>t \<in> set xs. blockOf s = blockOf t \<and> rowOf s = rowOf t)"

text \<open>No two seats of a pool stand at the same block, row and column.\<close>

definition distinctPositions :: "SeatWithScore list \<Rightarrow> bool" where
  "distinctPositions ss \<longleftrightarrow> distinct (map (\<lambda>s. (blockOf s, rowOf s, colOr0 s)) ss)"

text \<open>
  The mean of the scores of a run as a chunk carries it: the scores are added from left
  to right and the sum is divided by the number of seats, every operation rounded by
  \<open>fl\<close>. Without rounding it is the arithmetic mean.
\<close>

definition roundedMean :: "(real \<Rightarrow> real) \<Rightarrow> SeatWithScore list \<Rightarrow> real" where
  "roundedMean fl xs = fl (foldl (\<lambda>acc x. fl (acc + x)) 0 (map score xs) / real (length xs))"

text \<open>
  Seat \<open>n\<close> is one of the eight neighbours of seat \<open>t\<close>: both have a block, a row and a
  column, the block is the same, and row and column differ by at most one, not both by
  zero.
\<close>

definition adjacentSeats :: "SeatWithScore \<Rightarrow> SeatWithScore \<Rightarrow> bool" where
  "adjacentSeats t n \<longleftrightarrow>
     (case (blockId t, row t, col t, blockId n, row n, col n) of
        (Some b, Some r, Some c, Some b', Some r', Some c') \<Rightarrow>
          b' = b \<and> \<bar>r' - r\<bar> \<le> 1 \<and> \<bar>c' - c\<bar> \<le> 1 \<and> (r', c') \<noteq> (r, c)
      | _ \<Rightarrow> False)"

text \<open>
  The ids of the seats next to a seated solo attendee: the seats of the pool with an id
  that is not empty and not assigned, and with a neighbour whose id is in \<open>solo\<close>.
\<close>

definition soloNeighbourIds :: "SeatWithScore list \<Rightarrow> string set \<Rightarrow> string set \<Rightarrow> string set" where
  "soloNeighbourIds ss assigned solo =
     seat_id ` {n \<in> set ss. seat_id n \<noteq> [] \<and> seat_id n \<notin> assigned
                  \<and> (\<exists>t \<in> set ss. seat_id t \<in> solo \<and> adjacentSeats t n)}"

text \<open>Every group of the grouping map holds seats of the input that share the group's key.\<close>

definition groupsWithin :: "SeatWithScore set \<Rightarrow> (string \<times> SeatWithScore list) list \<Rightarrow> bool" where
  "groupsWithin A g \<longleftrightarrow> (\<forall>(k, v) \<in> set g. set v \<subseteq> A \<and> (\<forall>s \<in> set v. chunkKey s = k))"

text \<open>No element occurs in two lists of a list of lists.\<close>

definition disjointLists :: "string list list \<Rightarrow> bool" where
  "disjointLists xss \<longleftrightarrow> (\<forall>i j. i < j \<and> j < length xss \<longrightarrow> set (xss ! i) \<inter> set (xss ! j) = {})"

text \<open>An assignment seats an applicant: it carries the applicant's id and as many seats as the party size.\<close>

definition seatedAs :: "Application \<Rightarrow> Assignment \<Rightarrow> bool" where
  "seatedAs app a \<longleftrightarrow>
     applicationId a = app_id app \<and> int (length (seatIds a)) = groupSize app"

text \<open>
  The invariant of the tier loops: granted seat ids are marked assigned, the seat lists of
  the assignments are pairwise disjoint, every applicant attempted so far is seated or
  listed unassigned, and every assignment seats an attempted applicant.
\<close>

definition goodState :: "AllocState \<Rightarrow> bool" where
  "goodState st \<longleftrightarrow>
     (\<forall>a \<in> set (st_assignments st). set (seatIds a) \<subseteq> st_assignedSeatIds st)
     \<and> disjointLists (map seatIds (st_assignments st))
     \<and> (\<forall>(app, t) \<in> set (st_attempts st).
           (\<exists>a \<in> set (st_assignments st). seatedAs app a) \<or> app_id app \<in> set (st_unassigned st))
     \<and> (\<forall>a \<in> set (st_assignments st). \<exists>(app, t) \<in> set (st_attempts st). seatedAs app a)"

text \<open>One iteration of a tier loop, whichever the tier.\<close>

definition loopStep :: "SeatWithScore list \<Rightarrow> Application \<Rightarrow> nat \<Rightarrow> AllocState \<Rightarrow> AllocState \<Rightarrow> bool" where
  "loopStep ss app t st st2 \<longleftrightarrow>
     allocateApp ss app t st = Inr (True, st2)
     \<or> (\<exists>st'. allocateApp ss app t st = Inr (False, st')
           \<and> st_assignments st2 = st_assignments st'
           \<and> st_assignedSeatIds st2 = st_assignedSeatIds st'
           \<and> st_unassigned st2 = st_unassigned st' @ [app_id app]
           \<and> st_attempts st2 = st_attempts st')"

text \<open>The tier of an applicant, as the classification loop decides it.\<close>

definition tierOf :: "Application \<Rightarrow> nat" where
  "tierOf app = (if isInvitation app \<or> isRelation app then 1
                 else if lastResult app = Some Lose then 2 else 3)"

section \<open>Properties\<close>

subsection \<open>Geometry scorer\<close>

lemma calculateSeatScore_score:
  "score (calculateSeatScore seat stage m) =
     max 0 (100 - (calculateDistance (seat_x seat) (seat_y seat) (fst stage) (snd stage) / m) * 100)
       + (if isPremium seat then 1000 else 0)"
  by (simp add: calculateSeatScore_def Let_def)

lemma calculateDistance_nonneg: "0 \<le> calculateDistance a b c d"
  by (simp add: calculateDistance_def)

lemma distanceScore_le: "0 < m \<Longrightarrow> 0 \<le> d \<Longrightarrow> max 0 (100 - (d / m) * 100) \<le> (100::real)"
  by simp

text \<open>
  Claim C5. For \<open>maxDistance \<noteq> 0\<close> the score of a seat is
  \<open>max(0, 100 - (distance / maxDistance) * 100)\<close>, plus \<open>1000\<close> for a premium seat, where
  the distance is the Euclidean distance from the seat to the stage, the square root of
  the sum of the squares of the two coordinate differences; that distance is also what
  the scored seat carries as \<^verbatim>\<open>distanceFromStage\<close>. For a positive \<open>maxDistance\<close> every
  premium seat scores strictly more than every seat that is not premium, whatever their
  distances.
\<close>

theorem calculateSeatScore_premium_outranks:
  "(maxDistance \<noteq> 0 \<longrightarrow>
      score (calculateSeatScore seat stage maxDistance) =
        max 0 (100 - (sqrt ((fst stage - seat_x seat)\<^sup>2 + (snd stage - seat_y seat)\<^sup>2)
                       / maxDistance) * 100)
          + (if isPremium seat then 1000 else 0))
   \<and> distanceFromStage (calculateSeatScore seat stage maxDistance) =
        sqrt ((fst stage - seat_x seat)\<^sup>2 + (snd stage - seat_y seat)\<^sup>2)
   \<and> (0 < maxDistance \<longrightarrow> isPremium p \<longrightarrow> \<not> isPremium q \<longrightarrow>
        score (calculateSeatScore q stage maxDistance)
          < score (calculateSeatScore p stage maxDistance))"
proof (intro conjI impI)
  show "score (calculateSeatScore seat stage maxDistance) =
        max 0 (100 - (sqrt ((fst stage - seat_x seat)\<^sup>2 + (snd stage - seat_y seat)\<^sup>2)
                       / maxDistance) * 100)
          + (if isPremium seat then 1000 else 0)"
    by (simp add: calculateSeatScore_def calculateDistance_def Let_def)
next
  show "distanceFromStage (calculateSeatScore seat stage maxDistance) =
        sqrt ((fst stage - seat_x seat)\<^sup>2 + (snd stage - seat_y seat)\<^sup>2)"
    by (simp add: calculateSeatScore_def calculateDistance_def Let_def)
next
  assume m: "0 < maxDistance" and p: "isPremium p" and q: "\<not> isPremium q"
  let ?dq = "calculateDistance (seat_x q) (seat_y q) (fst stage) (snd stage)"
  let ?dp = "calculateDistance (seat_x p) (seat_y p) (fst stage) (snd stage)"
  have "score (calculateSeatScore q stage maxDistance) = max 0 (100 - (?dq / maxDistance) * 100)"
    using q by (simp add: calculateSeatScore_score)
  also have "\<dots> \<le> 100"
    using m by (intro distanceScore_le calculateDistance_nonneg)
  also have "(100::real) < 0 + 1000" by simp
  also have "\<dots> \<le> max 0 (100 - (?dp / maxDistance) * 100) + 1000" by simp
  also have "\<dots> = score (calculateSeatScore p stage maxDistance)"
    using p by (simp add: calculateSeatScore_score)
  finally show "score (calculateSeatScore q stage maxDistance)
      < score (calculateSeatScore p stage maxDistance)" .
qed

theorem calculateSeatScore_premium_outranks_witness:
  "(10::real) \<noteq> 0 \<and> (0::real) < 10
   \<and> isPremium (seatAt ''p'' 3 4 True) \<and> \<not> isPremium (seatAt ''q'' 0 0 False)
   \<and> distanceFromStage (calculateSeatScore (seatAt ''p'' 3 4 True) (0, 0) 10) = 5
   \<and> score (calculateSeatScore (seatAt ''p'' 3 4 True) (0, 0) 10) = 1050
   \<and> score (calculateSeatScore (seatAt ''q'' 0 0 False) (0, 0) 10) = 100
   \<and> score (calculateSeatScore (seatAt ''q'' 0 0 False) (0, 0) 10)
       < score (calculateSeatScore (seatAt ''p'' 3 4 True) (0, 0) 10)"
proof -
  have s: "sqrt 25 = 5"
    by (rule real_sqrt_unique) simp_all
  show ?thesis
    using calculateSeatScore_premium_outranks
            [of 10 "seatAt ''p'' 3 4 True" "(0, 0)" "seatAt ''p'' 3 4 True" "seatAt ''q'' 0 0 False"]
          calculateSeatScore_premium_outranks
            [of 10 "seatAt ''q'' 0 0 False" "(0, 0)" "seatAt ''p'' 3 4 True" "seatAt ''q'' 0 0 False"]
    by (simp add: seatAt_def s)
qed

subsection \<open>Score updater\<close>

lemma qualityChange_specDelta: "qualityChange q = specDelta q"
  by (cases q) (simp_all add: qualityChange_def specDelta_def)

lemma winUpdates_step:
  "winUpdates apps (a # rest) =
     (case matchedApp apps (applicationId a) of
        None \<Rightarrow> winUpdates apps rest
      | Some app \<Rightarrow> winEntry apps a # winUpdates apps rest)"
  by (simp add: matchedApp_def Let_def winEntry_def loseEntry_def split: option.splits)

lemma winUpdates_single:
  "matchedApp apps (applicationId a) = Some app \<Longrightarrow> winUpdateOf a app (winEntry apps a)"
  by (simp add: winEntry_def matchedApp_def winUpdateOf_def labelOf_def isPriority_def clamp_def Let_def
      qualityChange_specDelta minScore_def maxScore_def)

lemma winUpdates_complete:
  "a \<in> set asgs \<Longrightarrow> matchedApp apps (applicationId a) = Some app
   \<Longrightarrow> \<exists>u \<in> set (winUpdates apps asgs). winUpdateOf a app u"
proof (induction asgs)
  case Nil
  then show ?case by simp
next
  case (Cons b rest)
  show ?case
  proof (cases "a = b")
    case True
    with Cons.prems winUpdates_single [of apps a app] show ?thesis
      by (simp only: winUpdates_step) auto
  next
    case False
    with Cons obtain u where "u \<in> set (winUpdates apps rest)" "winUpdateOf a app u"
      by auto
    then show ?thesis
      by (simp only: winUpdates_step) (auto split: option.splits)
  qed
qed

lemma winUpdates_sound:
  "u \<in> set (winUpdates apps asgs)
   \<Longrightarrow> \<exists>a \<in> set asgs. \<exists>app. matchedApp apps (applicationId a) = Some app \<and> winUpdateOf a app u"
proof (induction asgs)
  case Nil
  then show ?case by simp
next
  case (Cons b rest)
  show ?case
  proof (cases "matchedApp apps (applicationId b)")
    case None
    with Cons show ?thesis
      by (simp only: winUpdates_step) auto
  next
    case (Some app)
    with Cons.prems have "u = winEntry apps b \<or> u \<in> set (winUpdates apps rest)"
      by (simp only: winUpdates_step) auto
    then show ?thesis
    proof
      assume "u = winEntry apps b"
      with Some winUpdates_single [of apps b app] show ?thesis by auto
    next
      assume "u \<in> set (winUpdates apps rest)"
      with Cons.IH show ?thesis by auto
    qed
  qed
qed

lemma loseUpdates_step:
  "loseUpdates apps (i # rest) =
     (case matchedApp apps i of
        None \<Rightarrow> loseUpdates apps rest
      | Some app \<Rightarrow> loseEntry apps i # loseUpdates apps rest)"
  by (simp add: matchedApp_def Let_def winEntry_def loseEntry_def split: option.splits)

lemma loseUpdates_single:
  "matchedApp apps i = Some app \<Longrightarrow> loseUpdateOf i app (loseEntry apps i)"
  by (simp add: loseEntry_def matchedApp_def loseUpdateOf_def isPriority_def clamp_def Let_def
      loseChange_def minScore_def maxScore_def)

lemma loseUpdates_complete:
  "i \<in> set ids \<Longrightarrow> matchedApp apps i = Some app
   \<Longrightarrow> \<exists>u \<in> set (loseUpdates apps ids). loseUpdateOf i app u"
proof (induction ids)
  case Nil
  then show ?case by simp
next
  case (Cons b rest)
  show ?case
  proof (cases "i = b")
    case True
    with Cons.prems loseUpdates_single [of apps i app] show ?thesis
      by (simp only: loseUpdates_step) auto
  next
    case False
    with Cons obtain u where "u \<in> set (loseUpdates apps rest)" "loseUpdateOf i app u"
      by auto
    then show ?thesis
      by (simp only: loseUpdates_step) (auto split: option.splits)
  qed
qed

lemma loseUpdates_sound:
  "u \<in> set (loseUpdates apps ids)
   \<Longrightarrow> \<exists>i \<in> set ids. \<exists>app. matchedApp apps i = Some app \<and> loseUpdateOf i app u"
proof (induction ids)
  case Nil
  then show ?case by simp
next
  case (Cons b rest)
  show ?case
  proof (cases "matchedApp apps b")
    case None
    with Cons show ?thesis
      by (simp only: loseUpdates_step) auto
  next
    case (Some app)
    with Cons.prems have "u = loseEntry apps b \<or> u \<in> set (loseUpdates apps rest)"
      by (simp only: loseUpdates_step) auto
    then show ?thesis
    proof
      assume "u = loseEntry apps b"
      with Some loseUpdates_single [of apps b app] show ?thesis by auto
    next
      assume "u \<in> set (loseUpdates apps rest)"
      with Cons.IH show ?thesis by auto
    qed
  qed
qed

text \<open>
  Claim C4. Every assignment whose applicant is found yields an update with the next score
  \<open>clamp(pastScore + delta, 1, 10)\<close>, the delta read off the assignment's label (top \<open>-4\<close>,
  good \<open>-1.5\<close>, normal \<open>0\<close>, back \<open>+1.5\<close>, far \<open>+4\<close>); every unassigned id whose applicant
  is found yields an update with \<open>clamp(pastScore + 6, 1, 10)\<close>; a priority applicant, seated
  or not, keeps its past score with change \<open>0\<close>; and the list holds no other update.
\<close>

theorem calculateScoreUpdates_next_score:
  "(\<forall>a \<in> set asgs. \<forall>app. matchedApp apps (applicationId a) = Some app \<longrightarrow>
      (\<exists>u \<in> set (calculateScoreUpdates asgs un apps). winUpdateOf a app u))
   \<and> (\<forall>i \<in> set un. \<forall>app. matchedApp apps i = Some app \<longrightarrow>
      (\<exists>u \<in> set (calculateScoreUpdates asgs un apps). loseUpdateOf i app u))
   \<and> (\<forall>u \<in> set (calculateScoreUpdates asgs un apps).
        (\<exists>a \<in> set asgs. \<exists>app. matchedApp apps (applicationId a) = Some app \<and> winUpdateOf a app u)
        \<or> (\<exists>i \<in> set un. \<exists>app. matchedApp apps i = Some app \<and> loseUpdateOf i app u))"
proof (intro conjI ballI allI impI)
  fix a app
  assume "a \<in> set asgs" "matchedApp apps (applicationId a) = Some app"
  then show "\<exists>u \<in> set (calculateScoreUpdates asgs un apps). winUpdateOf a app u"
    using winUpdates_complete [of a asgs apps app] by (auto simp: calculateScoreUpdates_def)
next
  fix i app
  assume "i \<in> set un" "matchedApp apps i = Some app"
  then show "\<exists>u \<in> set (calculateScoreUpdates asgs un apps). loseUpdateOf i app u"
    using loseUpdates_complete [of i un apps app] by (auto simp: calculateScoreUpdates_def)
next
  fix u
  assume "u \<in> set (calculateScoreUpdates asgs un apps)"
  then have "u \<in> set (winUpdates apps asgs) \<or> u \<in> set (loseUpdates apps un)"
    by (auto simp: calculateScoreUpdates_def)
  then show "(\<exists>a \<in> set asgs. \<exists>app. matchedApp apps (applicationId a) = Some app \<and> winUpdateOf a app u)
        \<or> (\<exists>i \<in> set un. \<exists>app. matchedApp apps i = Some app \<and> loseUpdateOf i app u)"
    using winUpdates_sound [of u apps asgs] loseUpdates_sound [of u apps un] by blast
qed

theorem calculateScoreUpdates_next_score_witness:
  "mkAssignment ''a'' [''s1''] 3 (Some Top) \<in> set [mkAssignment ''a'' [''s1''] 3 (Some Top)]
   \<and> matchedApp [mkApp ''a'' 1 False False 7 None, mkApp ''b'' 1 False False 9 None,
                  mkApp ''v'' 1 True False 3 None] ''a''
       = Some (mkApp ''a'' 1 False False 7 None)
   \<and> map nextScore (calculateScoreUpdates [mkAssignment ''a'' [''s1''] 3 (Some Top)] [''b'', ''v'']
          [mkApp ''a'' 1 False False 7 None, mkApp ''b'' 1 False False 9 None,
           mkApp ''v'' 1 True False 3 None]) = [3, 10, 3]
   \<and> (\<exists>u \<in> set (calculateScoreUpdates [mkAssignment ''a'' [''s1''] 3 (Some Top)] [''b'', ''v'']
          [mkApp ''a'' 1 False False 7 None, mkApp ''b'' 1 False False 9 None,
           mkApp ''v'' 1 True False 3 None]).
         winUpdateOf (mkAssignment ''a'' [''s1''] 3 (Some Top)) (mkApp ''a'' 1 False False 7 None) u)"
  using calculateScoreUpdates_next_score
          [of "[mkAssignment ''a'' [''s1''] 3 (Some Top)]"
              "[mkApp ''a'' 1 False False 7 None, mkApp ''b'' 1 False False 9 None,
                mkApp ''v'' 1 True False 3 None]" "[''b'', ''v'']"]
  by (simp add: matchedApp_def mkApp_def mkAssignment_def calculateScoreUpdates_def
      qualityChange_def loseChange_def minScore_def maxScore_def winUpdateOf_def
      loseUpdateOf_def labelOf_def isPriority_def clamp_def specDelta_def)

lemma matchedApp_Some_iff: "matchedApp apps i \<noteq> None \<longleftrightarrow> (\<exists>ap \<in> set apps. app_id ap = i)"
  by (auto simp: matchedApp_def find_None_iff)

lemma ids_winUpdates:
  "map su_applicationId (winUpdates apps asgs)
     = filter (\<lambda>i. matchedApp apps i \<noteq> None) (map applicationId asgs)"
  by (induction asgs) (auto simp: matchedApp_def Let_def split: option.splits)

lemma ids_loseUpdates:
  "map su_applicationId (loseUpdates apps ids) = filter (\<lambda>i. matchedApp apps i \<noteq> None) ids"
  by (induction ids) (auto simp: matchedApp_def Let_def split: option.splits)

text \<open>
  Claim C10. The updates are those of the entries with a matching application, in order:
  an assignment or an unassigned id without one is skipped, and each matched entry has
  exactly one update.
\<close>

theorem calculateScoreUpdates_skips_unmatched:
  "map su_applicationId (calculateScoreUpdates asgs un apps)
     = filter (\<lambda>i. \<exists>ap \<in> set apps. app_id ap = i) (map applicationId asgs)
       @ filter (\<lambda>i. \<exists>ap \<in> set apps. app_id ap = i) un
   \<and> length (calculateScoreUpdates asgs un apps)
     = length (filter (\<lambda>a. \<exists>ap \<in> set apps. app_id ap = applicationId a) asgs)
       + length (filter (\<lambda>i. \<exists>ap \<in> set apps. app_id ap = i) un)"
proof
  have m: "(\<lambda>i. matchedApp apps i \<noteq> None) = (\<lambda>i. \<exists>ap \<in> set apps. app_id ap = i)"
    by (rule ext) (rule matchedApp_Some_iff)
  show ids: "map su_applicationId (calculateScoreUpdates asgs un apps)
     = filter (\<lambda>i. \<exists>ap \<in> set apps. app_id ap = i) (map applicationId asgs)
       @ filter (\<lambda>i. \<exists>ap \<in> set apps. app_id ap = i) un"
    unfolding calculateScoreUpdates_def map_append ids_winUpdates ids_loseUpdates m ..
  have "length (calculateScoreUpdates asgs un apps)
      = length (map su_applicationId (calculateScoreUpdates asgs un apps))"
    by simp
  also have "\<dots> = length (filter (\<lambda>i. \<exists>ap \<in> set apps. app_id ap = i) (map applicationId asgs))
       + length (filter (\<lambda>i. \<exists>ap \<in> set apps. app_id ap = i) un)"
    unfolding ids by simp
  also have "length (filter (\<lambda>i. \<exists>ap \<in> set apps. app_id ap = i) (map applicationId asgs))
      = length (filter (\<lambda>a. \<exists>ap \<in> set apps. app_id ap = applicationId a) asgs)"
    by (simp add: filter_map comp_def)
  finally show "length (calculateScoreUpdates asgs un apps)
     = length (filter (\<lambda>a. \<exists>ap \<in> set apps. app_id ap = applicationId a) asgs)
       + length (filter (\<lambda>i. \<exists>ap \<in> set apps. app_id ap = i) un)" .
qed

theorem calculateScoreUpdates_skips_unmatched_witness:
  "map su_applicationId
     (calculateScoreUpdates [mkAssignment ''a'' [''s1''] 3 None, mkAssignment ''ghost'' [''s2''] 3 None]
        [''b'', ''nobody''] [mkApp ''a'' 1 False False 5 None, mkApp ''b'' 1 False False 5 None])
     = [''a'', ''b'']
   \<and> length (calculateScoreUpdates [mkAssignment ''a'' [''s1''] 3 None, mkAssignment ''ghost'' [''s2''] 3 None]
        [''b'', ''nobody''] [mkApp ''a'' 1 False False 5 None, mkApp ''b'' 1 False False 5 None]) = 2"
  using calculateScoreUpdates_skips_unmatched
     [of "[mkAssignment ''a'' [''s1''] 3 None, mkAssignment ''ghost'' [''s2''] 3 None]"
         "[''b'', ''nobody'']" "[mkApp ''a'' 1 False False 5 None, mkApp ''b'' 1 False False 5 None]"]
  by (simp add: mkApp_def mkAssignment_def)

text \<open>
  Claim C8 as stated fails: an unseated priority applicant with past score \<open>0\<close> keeps
  \<open>0\<close> as next score.
\<close>

theorem calculateScoreUpdates_priority_unclamped:
  "isInvitation (mkApp ''v'' 1 True False 0 None)
   \<and> length (calculateScoreUpdates [] [''v''] [mkApp ''v'' 1 True False 0 None]) = 1
   \<and> nextScore (calculateScoreUpdates [] [''v''] [mkApp ''v'' 1 True False 0 None] ! 0) < 1"
  by (simp add: calculateScoreUpdates_def mkApp_def)

text \<open>
  Claim C8, amended. Every update belongs to the first application with its id. The next
  score of a priority applicant is its past score, unclamped; the next score lies in
  \<open>[1, 10]\<close> for every applicant that is not priority, and for a priority applicant whose
  past score lies there.
\<close>

theorem calculateScoreUpdates_bounds:
  assumes "u \<in> set (calculateScoreUpdates asgs un apps)"
  shows "\<exists>app. matchedApp apps (su_applicationId u) = Some app
     \<and> (isPriority app \<longrightarrow> nextScore u = pastScore app)
     \<and> (\<not> isPriority app \<or> (1 \<le> pastScore app \<and> pastScore app \<le> 10)
          \<longrightarrow> 1 \<le> nextScore u \<and> nextScore u \<le> 10)"
proof -
  from assms have "u \<in> set (winUpdates apps asgs) \<or> u \<in> set (loseUpdates apps un)"
    by (auto simp: calculateScoreUpdates_def)
  then show ?thesis
  proof
    assume "u \<in> set (winUpdates apps asgs)"
    then obtain a app where "matchedApp apps (applicationId a) = Some app" "winUpdateOf a app u"
      using winUpdates_sound by blast
    then show ?thesis
      by (auto simp: winUpdateOf_def clamp_def)
  next
    assume "u \<in> set (loseUpdates apps un)"
    then obtain i app where "matchedApp apps i = Some app" "loseUpdateOf i app u"
      using loseUpdates_sound by blast
    then show ?thesis
      by (auto simp: loseUpdateOf_def clamp_def)
  qed
qed

theorem calculateScoreUpdates_bounds_witness:
  "mkApp ''b'' 1 False False 9 None \<in> set [mkApp ''b'' 1 False False 9 None]
   \<and> calculateScoreUpdates [] [''b''] [mkApp ''b'' 1 False False 9 None]
      = [\<lparr> su_applicationId = ''b'', currentScore = 9, nextScore = 10, change = 1,
           su_seatQuality = LoseLabel, su_lastResult = Lose \<rparr>]
   \<and> (\<exists>app. matchedApp [mkApp ''b'' 1 False False 9 None] ''b'' = Some app
         \<and> \<not> isPriority app
         \<and> 1 \<le> nextScore (hd (calculateScoreUpdates [] [''b''] [mkApp ''b'' 1 False False 9 None]))
         \<and> nextScore (hd (calculateScoreUpdates [] [''b''] [mkApp ''b'' 1 False False 9 None])) \<le> 10)"
  using calculateScoreUpdates_bounds
     [of "hd (calculateScoreUpdates [] [''b''] [mkApp ''b'' 1 False False 9 None])"
         "[]" "[''b'']" "[mkApp ''b'' 1 False False 9 None]"]
  by (simp add: calculateScoreUpdates_def mkApp_def matchedApp_def isPriority_def
      loseChange_def minScore_def maxScore_def)

subsection \<open>Degenerate input\<close>

text \<open>
  Claim C9. Without an available seat, or without an applicant, \<^verbatim>\<open>assignSeats\<close> returns a
  result (it does not fail) with no assignment, every applicant's id in \<open>unassigned\<close> in
  input order, and statistics that report zero available seats, zero people assigned, an
  average score of zero and zero for every tier count.
\<close>

theorem assignSeats_degenerate:
  assumes "filter (\<lambda>s. \<not> isDisabled s) seatList = [] \<or> applications = []"
  shows "assignSeats seatList applications config =
     Inr \<lparr> assignments = [], unassigned = map app_id applications,
           stats = \<lparr> totalSeats = length seatList, availableSeats = 0,
                     totalApplications = length applications, totalPeopleAssigned = 0,
                     averageScore = 0, tier1Count = 0, tier2Count = 0, tier3Count = 0,
                     tier2OverflowCount = 0 \<rparr> \<rparr>"
  using assms by (auto simp: assignSeats_def Let_def)

theorem assignSeats_degenerate_witness:
  "(filter (\<lambda>s. \<not> isDisabled s) [(seatAt ''s1'' 0 0 False)\<lparr> isDisabled := True \<rparr>] = []
      \<or> [mkApp ''a'' 2 False False 5 None, mkApp ''b'' 1 True False 5 None] = [])
   \<and> assignSeats [(seatAt ''s1'' 0 0 False)\<lparr> isDisabled := True \<rparr>]
         [mkApp ''a'' 2 False False 5 None, mkApp ''b'' 1 True False 5 None]
         \<lparr> stagePosition = (0, 0), skillWeight = None, randomFn = (\<lambda>n. 0) \<rparr>
       = Inr \<lparr> assignments = [], unassigned = [''a'', ''b''],
               stats = \<lparr> totalSeats = 1, availableSeats = 0, totalApplications = 2,
                         totalPeopleAssigned = 0, averageScore = 0, tier1Count = 0,
                         tier2Count = 0, tier3Count = 0, tier2OverflowCount = 0 \<rparr> \<rparr>"
  using assignSeats_degenerate
     [of "[(seatAt ''s1'' 0 0 False)\<lparr> isDisabled := True \<rparr>]"
         "[mkApp ''a'' 2 False False 5 None, mkApp ''b'' 1 True False 5 None]"
         "\<lparr> stagePosition = (0, 0), skillWeight = None, randomFn = (\<lambda>n. 0) \<rparr>"]
  by (simp add: seatAt_def mkApp_def)

subsection \<open>Group allocator: the head of the sorted candidates\<close>

lemma hd_insort_key:
  "hd (insort_key f x ys) = (if ys = [] \<or> f x \<le> f (hd ys) then x else hd ys)"
  by (cases ys) auto

lemma sort_key_Nil_iff: "sort_key f xs = [] \<longleftrightarrow> xs = []"
  by (metis length_0_conv length_sort)

lemma hd_sort_key_first_min:
  "xs \<noteq> [] \<Longrightarrow>
     \<exists>k<length xs. hd (sort_key f xs) = xs ! k
        \<and> (\<forall>j<length xs. f (xs ! k) \<le> f (xs ! j)) \<and> (\<forall>j<k. f (xs ! k) < f (xs ! j))"
proof (induction xs)
  case Nil
  then show ?case by simp
next
  case (Cons x xs)
  show ?case
  proof (cases "xs = []")
    case True
    then show ?thesis by simp
  next
    case False
    with Cons.IH obtain k where k: "k < length xs" "hd (sort_key f xs) = xs ! k"
      "\<forall>j<length xs. f (xs ! k) \<le> f (xs ! j)" "\<forall>j<k. f (xs ! k) < f (xs ! j)"
      by blast
    have ne: "sort_key f xs \<noteq> []"
      using False by (simp add: sort_key_Nil_iff)
    show ?thesis
    proof (cases "f x \<le> f (xs ! k)")
      case True
      have "hd (sort_key f (x # xs)) = (x # xs) ! 0"
        using True k(2) ne by (simp add: hd_insort_key)
      moreover have "\<forall>j<length (x # xs). f ((x # xs) ! 0) \<le> f ((x # xs) ! j)"
      proof (intro allI impI)
        fix j assume "j < length (x # xs)"
        then show "f ((x # xs) ! 0) \<le> f ((x # xs) ! j)"
          using True k(3) by (cases j) (auto intro: order_trans)
      qed
      ultimately show ?thesis
        by (intro exI [of _ 0]) simp
    next
      case False
      have "hd (sort_key f (x # xs)) = (x # xs) ! Suc k"
        using False k(2) ne by (simp add: hd_insort_key)
      moreover have "\<forall>j<length (x # xs). f ((x # xs) ! Suc k) \<le> f ((x # xs) ! j)"
      proof (intro allI impI)
        fix j assume "j < length (x # xs)"
        then show "f ((x # xs) ! Suc k) \<le> f ((x # xs) ! j)"
          using False k(3) by (cases j) auto
      qed
      moreover have "\<forall>j<Suc k. f ((x # xs) ! Suc k) < f ((x # xs) ! j)"
      proof (intro allI impI)
        fix j assume "j < Suc k"
        then show "f ((x # xs) ! Suc k) < f ((x # xs) ! j)"
          using False k(4) by (cases j) auto
      qed
      ultimately show ?thesis
        using k(1) by (intro exI [of _ "Suc k"]) simp
    qed
  qed
qed

lemma length_applySoloBonus: "length (applySoloBonus fl cands adj) = length cands"
  by (simp add: applySoloBonus_def Let_def)

lemma length_bonusCandidates:
  "length (bonusCandidates fl gs ss assigned solo cands) = length cands"
  by (simp add: bonusCandidates_def length_applySoloBonus split: option.splits)

lemma findAndAllocateSeats_Some:
  assumes "findAndAllocateSeats fl gs ss assigned solo = Inr (Some chosen)"
  shows "\<exists>cands. candidateChunks fl gs (filter (\<lambda>s. seat_id s \<notin> assigned) ss) = Inr cands
     \<and> cands \<noteq> []
     \<and> chosen = seats (hd (sort_key (\<lambda>c. - avgScore c)
                               (bonusCandidates fl gs ss assigned solo cands)))"
  using assms
  by (auto simp: findAndAllocateSeats_def Let_def split: if_splits sum.splits)

lemma scenarioA_rounded:
  assumes ex: "\<forall>n\<le>120. fl (real n) = real n"
  shows "findAndAllocateSeats fl 3
     [scoredSeat i0 b r c 10, scoredSeat i1 b r (c + 1) 20, scoredSeat i2 b r (c + 2) 30,
      scoredSeat i3 b r (c + 3) 40, scoredSeat i4 b r (c + 4) 50] {} None
   = Inr (Some [scoredSeat i2 b r (c + 2) 30, scoredSeat i3 b r (c + 3) 40,
                scoredSeat i4 b r (c + 4) 50])"
proof -
  have f: "fl 10 = 10" "fl 20 = 20" "fl 30 = 30" "fl 40 = 40" "fl 50 = 50" "fl 60 = 60"
    "fl 70 = 70" "fl 90 = 90" "fl 120 = 120"
    using ex [rule_format, of 10] ex [rule_format, of 20] ex [rule_format, of 30]
      ex [rule_format, of 40] ex [rule_format, of 50] ex [rule_format, of 60]
      ex [rule_format, of 70] ex [rule_format, of 90] ex [rule_format, of 120]
    by simp_all
  show ?thesis
    by (simp add: findAndAllocateSeats_def candidateChunks_def bonusCandidates_def
        buildAllChunks_def grouped_def chunkKey_def scoredSeat_def colOr0_def scanRow.simps
        js_slice_def getSubChunks_def mkChunk_def upto.simps f)
qed

subsection \<open>Run builder\<close>

text \<open>
  The keys of the two maps are injective: the decimal notation of an integer determines
  the integer and holds no underscore, so a key splits at its last underscore.
\<close>

lemma show_nat_digits: "set (show_nat n) \<subseteq> set ''0123456789''"
proof (induction n rule: show_nat.induct)
  case (1 n)
  show ?case
  proof (cases "n < 10")
    case True
    then have "''0123456789'' ! n \<in> set ''0123456789''"
      by (intro nth_mem) simp
    with True show ?thesis
      by (subst show_nat.simps) simp
  next
    case False
    have "''0123456789'' ! (n mod 10) \<in> set ''0123456789''"
      by (intro nth_mem) simp
    with False "1.IH" show ?thesis
      by (subst show_nat.simps) simp
  qed
qed

lemma show_nat_not_Nil: "show_nat n \<noteq> []"
  by (subst show_nat.simps) simp

lemma digit_inj:
  assumes "i < 10" "j < 10" "''0123456789'' ! i = ''0123456789'' ! j"
  shows "i = j"
proof -
  have "distinct ''0123456789''" by simp
  moreover have "i < length ''0123456789''" "j < length ''0123456789''"
    using assms by simp_all
  ultimately show ?thesis
    using assms(3) by (simp only: nth_eq_iff_index_eq)
qed

lemma show_nat_inj: "show_nat n = show_nat m \<Longrightarrow> n = m"
proof (induction n arbitrary: m rule: show_nat.induct)
  case (1 n)
  show ?case
  proof (cases "n < 10")
    case n: True
    show ?thesis
    proof (cases "m < 10")
      case True
      with n "1.prems" have "''0123456789'' ! n = ''0123456789'' ! m"
        by (simp add: show_nat.simps [of n] show_nat.simps [of m])
      with n True show ?thesis by (rule digit_inj)
    next
      case False
      with n "1.prems" have "show_nat (m div 10) = []"
        by (simp add: show_nat.simps [of n] show_nat.simps [of m] Cons_eq_append_conv)
      then show ?thesis by (simp add: show_nat_not_Nil)
    qed
  next
    case n: False
    show ?thesis
    proof (cases "m < 10")
      case True
      with n "1.prems" have "show_nat (n div 10) = []"
        by (simp add: show_nat.simps [of n] show_nat.simps [of m] append_eq_Cons_conv)
      then show ?thesis by (simp add: show_nat_not_Nil)
    next
      case False
      with n "1.prems" have e: "show_nat (n div 10) = show_nat (m div 10)"
        "''0123456789'' ! (n mod 10) = ''0123456789'' ! (m mod 10)"
        by (simp_all add: show_nat.simps [of n] show_nat.simps [of m])
      from "1.IH" [OF n e(1)] have "n div 10 = m div 10" .
      moreover have "n mod 10 = m mod 10"
        using e(2) by (intro digit_inj) simp_all
      ultimately show ?thesis
        by (metis div_mult_mod_eq)
    qed
  qed
qed

lemma underscore_notin_show_int: "CHR ''_'' \<notin> set (show_int i)"
  using show_nat_digits [of "nat i"] show_nat_digits [of "nat (- i)"]
  by (auto simp: show_int_def)

lemma minus_notin_show_nat: "CHR ''-'' \<notin> set (show_nat n)"
  using show_nat_digits [of n] by auto

lemma show_int_inj: "show_int i = show_int j \<Longrightarrow> i = j"
proof -
  assume a: "show_int i = show_int j"
  have hdn: "\<And>n. hd (show_nat n) \<noteq> CHR ''-''"
  proof -
    fix n
    have "hd (show_nat n) \<in> set (show_nat n)"
      by (intro hd_in_set show_nat_not_Nil)
    with minus_notin_show_nat [of n] show "hd (show_nat n) \<noteq> CHR ''-''" by auto
  qed
  show ?thesis
  proof (cases "i < 0")
    case i: True
    show ?thesis
    proof (cases "j < 0")
      case True
      with i a have "show_nat (nat (- i)) = show_nat (nat (- j))"
        by (simp add: show_int_def)
      then have "nat (- i) = nat (- j)" by (rule show_nat_inj)
      with i True show ?thesis by simp
    next
      case False
      with i a have "CHR ''-'' # show_nat (nat (- i)) = show_nat (nat j)"
        by (simp add: show_int_def)
      then have "hd (show_nat (nat j)) = CHR ''-''"
        by (metis list.sel(1))
      with hdn show ?thesis by blast
    qed
  next
    case i: False
    show ?thesis
    proof (cases "j < 0")
      case True
      with i a have "show_nat (nat i) = CHR ''-'' # show_nat (nat (- j))"
        by (simp add: show_int_def)
      then have "hd (show_nat (nat i)) = CHR ''-''"
        by (metis list.sel(1))
      with hdn show ?thesis by blast
    next
      case False
      with i a have "show_nat (nat i) = show_nat (nat j)"
        by (simp add: show_int_def)
      then have "nat i = nat j" by (rule show_nat_inj)
      with i False show ?thesis by simp
    qed
  qed
qed

lemma split_first_sep:
  "c \<notin> set p \<Longrightarrow> c \<notin> set q \<Longrightarrow> p @ c # u = q @ c # v \<Longrightarrow> p = q \<and> u = v"
proof (induction p arbitrary: q)
  case Nil
  then show ?case by (cases q) auto
next
  case (Cons a p)
  then show ?case by (cases q) auto
qed

lemma split_last_sep:
  assumes "a @ c # x = b @ c # y" "c \<notin> set x" "c \<notin> set y"
  shows "a = b \<and> x = y"
proof -
  from assms(1) have "rev (a @ c # x) = rev (b @ c # y)" by simp
  then have "rev x @ c # rev a = rev y @ c # rev b" by simp
  moreover have "c \<notin> set (rev x)" "c \<notin> set (rev y)"
    using assms(2,3) by simp_all
  ultimately have "rev x = rev y \<and> rev a = rev b"
    by (intro split_first_sep)
  then show ?thesis by simp
qed

lemma chunkKey_eq_iff:
  "chunkKey s = chunkKey t \<longleftrightarrow> blockOf s = blockOf t \<and> rowOf s = rowOf t"
proof
  assume "chunkKey s = chunkKey t"
  then have "blockOf s @ CHR ''_'' # show_int (rowOf s) = blockOf t @ CHR ''_'' # show_int (rowOf t)"
    by (simp add: chunkKey_def blockOf_def rowOf_def)
  from split_last_sep [OF this underscore_notin_show_int underscore_notin_show_int]
  show "blockOf s = blockOf t \<and> rowOf s = rowOf t"
    by (auto dest: show_int_inj)
next
  assume "blockOf s = blockOf t \<and> rowOf s = rowOf t"
  then show "chunkKey s = chunkKey t"
    by (simp add: chunkKey_def blockOf_def rowOf_def)
qed

lemma gridKey_eq_iff:
  "gridKey b r c = gridKey b' r' c' \<longleftrightarrow> b = b' \<and> r = r' \<and> c = c'"
proof
  assume "gridKey b r c = gridKey b' r' c'"
  then have "(b @ CHR ''_'' # show_int r) @ CHR ''_'' # show_int c
      = (b' @ CHR ''_'' # show_int r') @ CHR ''_'' # show_int c'"
    by (simp add: gridKey_def)
  from split_last_sep [OF this underscore_notin_show_int underscore_notin_show_int]
  have 1: "b @ CHR ''_'' # show_int r = b' @ CHR ''_'' # show_int r'" and 2: "show_int c = show_int c'"
    by simp_all
  from split_last_sep [OF 1 underscore_notin_show_int underscore_notin_show_int] 2
  show "b = b' \<and> r = r' \<and> c = c'"
    by (auto dest: show_int_inj)
qed simp

lemma js_slice_window:
  assumes "0 \<le> i" "0 \<le> n" "i + n \<le> int (length xs)"
  shows "length (js_slice xs i (i + n)) = nat n"
proof -
  from assms have "nat i + nat n \<le> length xs" by linarith
  moreover have "js_slice xs i (i + n) = take (nat n) (drop (nat i) xs)"
    using assms by (simp add: js_slice_def Let_def min_def)
  ultimately show ?thesis by simp
qed
lemma set_js_slice: "set (js_slice xs a b) \<subseteq> set xs"
  by (auto simp: js_slice_def Let_def dest: in_set_takeD in_set_dropD)
lemma seats_mkChunk [simp]: "seats (mkChunk fl ss) = ss"
  by (simp add: mkChunk_def)
lemma scanRow_unfold:
  "scanRow fl rowSeats chunkStart i =
     (if i \<le> length rowSeats then
        (if i = length rowSeats \<or> colOr0 (rowSeats ! i) \<noteq> colOr0 (rowSeats ! (i - 1)) + 1
         then mkChunk fl (js_slice rowSeats (int chunkStart) (int i)) # scanRow fl rowSeats i (i + 1)
         else scanRow fl rowSeats chunkStart (i + 1))
      else [])"
  by (subst scanRow.simps) (simp add: Let_def)

lemma scanRow_subset:
  "c \<in> set (scanRow fl rowSeats chunkStart i) \<Longrightarrow> set (seats c) \<subseteq> set rowSeats"
proof (induction fl rowSeats chunkStart i rule: scanRow.induct)
  case (1 fl rowSeats chunkStart i)
  show ?case
  proof (cases "i \<le> length rowSeats")
    case False
    with "1.prems" show ?thesis
      by (subst (asm) scanRow_unfold) simp
  next
    case le: True
    show ?thesis
    proof (cases "i = length rowSeats
        \<or> colOr0 (rowSeats ! i) \<noteq> colOr0 (rowSeats ! (i - 1)) + 1")
      case True
      with le "1.prems"
      have "c = mkChunk fl (js_slice rowSeats (int chunkStart) (int i))
          \<or> c \<in> set (scanRow fl rowSeats i (i + 1))"
        by (subst (asm) scanRow_unfold) (simp split: if_splits)
      then show ?thesis
      proof
        assume "c = mkChunk fl (js_slice rowSeats (int chunkStart) (int i))"
        then show ?thesis
          using set_js_slice [of rowSeats "int chunkStart" "int i"] by simp
      next
        assume "c \<in> set (scanRow fl rowSeats i (i + 1))"
        with le True show ?thesis
          by (intro "1.IH"(1) [OF le refl refl]) auto
      qed
    next
      case False
      with le "1.prems" have "c \<in> set (scanRow fl rowSeats chunkStart (i + 1))"
        by (subst (asm) scanRow_unfold) (simp split: if_splits)
      with le False show ?thesis
        by (intro "1.IH"(2) [OF le refl refl]) auto
    qed
  qed
qed

lemma js_slice_nat:
  "a \<le> b \<Longrightarrow> b \<le> length xs \<Longrightarrow> js_slice xs (int a) (int b) = take (b - a) (drop a xs)"
  by (simp add: js_slice_def Let_def min_def nat_diff_distrib')

lemma scanRow_consecutive:
  assumes "c \<in> set (scanRow fl rowSeats chunkStart i)"
    and "chunkStart < i"
    and "\<forall>k. chunkStart \<le> k \<and> Suc k < i \<longrightarrow> colOr0 (rowSeats ! Suc k) = colOr0 (rowSeats ! k) + 1"
  shows "consecutiveCols (seats c)"
  using assms
proof (induction fl rowSeats chunkStart i rule: scanRow.induct)
  case (1 fl rowSeats chunkStart i)
  show ?case
  proof (cases "i \<le> length rowSeats")
    case False
    with "1.prems"(1) show ?thesis
      by (subst (asm) scanRow_unfold) simp
  next
    case le: True
    show ?thesis
    proof (cases "i = length rowSeats
        \<or> colOr0 (rowSeats ! i) \<noteq> colOr0 (rowSeats ! (i - 1)) + 1")
      case True
      with le "1.prems"(1)
      have "c = mkChunk fl (js_slice rowSeats (int chunkStart) (int i))
          \<or> c \<in> set (scanRow fl rowSeats i (i + 1))"
        by (subst (asm) scanRow_unfold) (simp split: if_splits)
      then show ?thesis
      proof
        assume c: "c = mkChunk fl (js_slice rowSeats (int chunkStart) (int i))"
        have s: "seats c = take (i - chunkStart) (drop chunkStart rowSeats)"
          using c le "1.prems"(2) by (simp add: js_slice_nat)
        show ?thesis
          unfolding consecutiveCols_def
        proof (intro allI impI)
          fix m assume m: "Suc m < length (seats c)"
          then have "Suc m < i - chunkStart" "chunkStart + Suc m < length rowSeats"
            using s le by simp_all
          then have "seats c ! Suc m = rowSeats ! Suc (chunkStart + m)"
            "seats c ! m = rowSeats ! (chunkStart + m)"
            using s le by simp_all
          moreover have "colOr0 (rowSeats ! Suc (chunkStart + m))
              = colOr0 (rowSeats ! (chunkStart + m)) + 1"
            using "1.prems"(3) \<open>Suc m < i - chunkStart\<close> by simp
          ultimately show "colOr0 (seats c ! Suc m) = colOr0 (seats c ! m) + 1"
            by simp
        qed
      next
        assume c: "c \<in> set (scanRow fl rowSeats i (i + 1))"
        show ?thesis
        proof (rule "1.IH"(1) [OF le refl refl _ c])
          show "i = length rowSeats
            \<or> \<not> i = length rowSeats
              \<and> colOr0 (rowSeats ! i) \<noteq> colOr0 (rowSeats ! (i - 1)) + 1"
            using True by blast
        qed simp_all
      qed
    next
      case False
      with le "1.prems"(1) have c: "c \<in> set (scanRow fl rowSeats chunkStart (i + 1))"
        by (subst (asm) scanRow_unfold) (simp split: if_splits)
      have inv: "\<forall>k. chunkStart \<le> k \<and> Suc k < i + 1
          \<longrightarrow> colOr0 (rowSeats ! Suc k) = colOr0 (rowSeats ! k) + 1"
      proof (intro allI impI)
        fix k assume k: "chunkStart \<le> k \<and> Suc k < i + 1"
        show "colOr0 (rowSeats ! Suc k) = colOr0 (rowSeats ! k) + 1"
        proof (cases "Suc k < i")
          case True
          with k "1.prems"(3) show ?thesis by blast
        next
          case nlt: False
          with k have "Suc k = i" by simp
          with False show ?thesis by auto
        qed
      qed
      show ?thesis
      proof (rule "1.IH"(2) [OF le refl refl _ c _ inv])
        show "\<not> (i = length rowSeats
            \<or> \<not> i = length rowSeats
              \<and> colOr0 (rowSeats ! i) \<noteq> colOr0 (rowSeats ! (i - 1)) + 1)"
          using False by blast
        show "chunkStart < i + 1"
          using "1.prems"(2) by simp
      qed
    qed
  qed
qed

lemma groupPush_cases:
  "(k', v') \<in> set (groupPush g k s) \<Longrightarrow>
     (k', v') \<in> set g \<or> (k' = k \<and> (v' = [s] \<or> (\<exists>v. (k, v) \<in> set g \<and> v' = v @ [s])))"
  by (induction g k s rule: groupPush.induct) (auto split: if_splits)

lemma groupsWithin_groupPush:
  assumes "groupsWithin A g" "s \<in> A"
  shows "groupsWithin A (groupPush g (chunkKey s) s)"
  unfolding groupsWithin_def
proof (clarify, intro conjI)
  fix k v assume kv: "(k, v) \<in> set (groupPush g (chunkKey s) s)"
  from groupPush_cases [OF kv] assms
  show "set v \<subseteq> A" unfolding groupsWithin_def by fastforce
  from groupPush_cases [OF kv] assms
  show "\<forall>t \<in> set v. chunkKey t = k" unfolding groupsWithin_def by fastforce
qed

lemma groupsWithin_fold:
  "groupsWithin A g \<Longrightarrow> set ss \<subseteq> A
   \<Longrightarrow> groupsWithin A (fold (\<lambda>s g. groupPush g (chunkKey s) s) ss g)"
  by (induction ss arbitrary: g) (simp_all add: groupsWithin_groupPush)

lemma grouped_inv:
  assumes "(k, v) \<in> set (grouped ss)"
  shows "set v \<subseteq> set ss" and "\<forall>s \<in> set v. chunkKey s = k"
proof -
  have "groupsWithin (set ss) (grouped ss)"
    unfolding grouped_def by (rule groupsWithin_fold) (simp_all add: groupsWithin_def)
  with assms show "set v \<subseteq> set ss" and "\<forall>s \<in> set v. chunkKey s = k"
    unfolding groupsWithin_def by blast+
qed

lemma buildAllChunks_cases:
  "c \<in> set (buildAllChunks fl ss) \<Longrightarrow>
     \<exists>k v. (k, v) \<in> set (grouped ss) \<and> c \<in> set (scanRow fl (sort_key colOr0 v) 0 1)"
  by (auto simp: buildAllChunks_def)

lemma buildAllChunks_subset:
  assumes "c \<in> set (buildAllChunks fl ss)"
  shows "set (seats c) \<subseteq> set ss"
proof -
  from buildAllChunks_cases [OF assms] obtain k v
    where kv: "(k, v) \<in> set (grouped ss)" "c \<in> set (scanRow fl (sort_key colOr0 v) 0 1)"
    by blast
  from scanRow_subset [OF kv(2)] have "set (seats c) \<subseteq> set v" by simp
  with grouped_inv(1) [OF kv(1)] show ?thesis by blast
qed

lemma buildAllChunks_consecutive:
  assumes "c \<in> set (buildAllChunks fl ss)"
  shows "consecutiveCols (seats c)"
proof -
  from buildAllChunks_cases [OF assms] obtain k v
    where kv: "c \<in> set (scanRow fl (sort_key colOr0 v) 0 1)"
    by blast
  then show ?thesis
    by (rule scanRow_consecutive) simp_all
qed

lemma buildAllChunks_same_key:
  assumes "c \<in> set (buildAllChunks fl ss)" "s \<in> set (seats c)" "t \<in> set (seats c)"
  shows "chunkKey s = chunkKey t"
proof -
  from buildAllChunks_cases [OF assms(1)] obtain k v
    where kv: "(k, v) \<in> set (grouped ss)" "c \<in> set (scanRow fl (sort_key colOr0 v) 0 1)"
    by blast
  from scanRow_subset [OF kv(2)] have "set (seats c) \<subseteq> set v" by simp
  with assms(2,3) have "s \<in> set v" "t \<in> set v" by blast+
  with grouped_inv(2) [OF kv(1)] have "chunkKey s = k" "chunkKey t = k" by blast+
  then show ?thesis by simp
qed

lemma consecutiveCols_offset:
  "consecutiveCols ss \<Longrightarrow> i \<le> j \<Longrightarrow> j < length ss
   \<Longrightarrow> colOr0 (ss ! j) = colOr0 (ss ! i) + int (j - i)"
proof (induction j)
  case 0
  then show ?case by simp
next
  case (Suc j)
  show ?case
  proof (cases "i = Suc j")
    case True
    then show ?thesis by simp
  next
    case False
    with Suc.prems have ij: "i \<le> j" "j < length ss" by simp_all
    with Suc have "colOr0 (ss ! j) = colOr0 (ss ! i) + int (j - i)" by simp
    moreover have "colOr0 (ss ! Suc j) = colOr0 (ss ! j) + 1"
      using Suc.prems by (simp add: consecutiveCols_def)
    ultimately show ?thesis
      using ij(1) by (simp add: Suc_diff_le)
  qed
qed

text \<open>
  Claim C7 as stated fails: a seat without a column is read as column \<open>0\<close> of its block
  and row, and shares a chunk with the seat at column \<open>1\<close> there.
\<close>

theorem buildAllChunks_undefined_col_merges:
  "col (bareSeat ''s1'' (Some ''A'') (Some 3) None 10) = None
   \<and> map chunkSeatIds
       (buildAllChunks id [bareSeat ''s1'' (Some ''A'') (Some 3) None 10,
                        bareSeat ''s2'' (Some ''A'') (Some 3) (Some 1) 20])
     = [[''s1'', ''s2'']]"
  by (simp add: buildAllChunks_def grouped_def chunkKey_def bareSeat_def colOr0_def
      scanRow_unfold js_slice_def mkChunk_def chunkSeatIds_def show_int_def show_nat.simps)

text \<open>
  Claim C7, amended. An undefined row, column or block is read as row \<open>0\<close>, column \<open>0\<close> or
  block \<^verbatim>\<open>'default'\<close> of the ordinary grouping. Any two seats of one chunk have the same
  block and the same row, so read, and the column of the later one is the column of the
  earlier one plus their distance in the chunk; hence two seats without a column never
  share a chunk. A seat without a column is alone in its chunk whenever no seat of the
  input with the same block and row, so read, has column \<open>1\<close> or \<open>-1\<close>.
\<close>

theorem buildAllChunks_columns:
  assumes "c \<in> set (buildAllChunks fl ss)"
  shows "(\<forall>i j. i < j \<and> j < length (seats c) \<longrightarrow>
            colOr0 (seats c ! j) = colOr0 (seats c ! i) + int (j - i)
            \<and> blockOf (seats c ! j) = blockOf (seats c ! i)
            \<and> rowOf (seats c ! j) = rowOf (seats c ! i)
            \<and> \<not> (col (seats c ! i) = None \<and> col (seats c ! j) = None))
     \<and> (\<forall>u \<in> set (seats c).
            col u = None
            \<and> (\<forall>s \<in> set ss. blockOf s = blockOf u \<and> rowOf s = rowOf u
                   \<longrightarrow> col s \<noteq> Some 1 \<and> col s \<noteq> Some (- 1))
            \<longrightarrow> seats c = [u])"
proof (intro conjI allI ballI impI)
  fix i j assume ij: "i < j \<and> j < length (seats c)"
  show off: "colOr0 (seats c ! j) = colOr0 (seats c ! i) + int (j - i)"
    using buildAllChunks_consecutive [OF assms] ij
    by (intro consecutiveCols_offset) simp_all
  have "chunkKey (seats c ! j) = chunkKey (seats c ! i)"
    using assms ij by (intro buildAllChunks_same_key [of c fl ss]) simp_all
  then show "blockOf (seats c ! j) = blockOf (seats c ! i)"
    and "rowOf (seats c ! j) = rowOf (seats c ! i)"
    by (simp_all add: chunkKey_eq_iff)
  show "\<not> (col (seats c ! i) = None \<and> col (seats c ! j) = None)"
  proof
    assume "col (seats c ! i) = None \<and> col (seats c ! j) = None"
    then have "colOr0 (seats c ! i) = 0" "colOr0 (seats c ! j) = 0"
      by (simp_all add: colOr0_def)
    with off ij show False by simp
  qed
next
  fix u
  assume u: "u \<in> set (seats c)"
    and h: "col u = None
            \<and> (\<forall>s \<in> set ss. blockOf s = blockOf u \<and> rowOf s = rowOf u
                   \<longrightarrow> col s \<noteq> Some 1 \<and> col s \<noteq> Some (- 1))"
  from h have u0: "colOr0 u = 0" by (simp add: colOr0_def)
  from u obtain i where i: "i < length (seats c)" "seats c ! i = u"
    by (auto simp: in_set_conv_nth)
  have other: False if k: "k < length (seats c)" "colOr0 (seats c ! k) = 1 \<or> colOr0 (seats c ! k) = - 1" for k
  proof -
    let ?s = "seats c ! k"
    from k(1) have m: "?s \<in> set (seats c)" by simp
    with buildAllChunks_subset [OF assms] have "?s \<in> set ss" by blast
    moreover from assms m u have "chunkKey ?s = chunkKey u"
      by (rule buildAllChunks_same_key)
    then have "blockOf ?s = blockOf u \<and> rowOf ?s = rowOf u"
      by (simp add: chunkKey_eq_iff)
    ultimately have "col ?s \<noteq> Some 1 \<and> col ?s \<noteq> Some (- 1)"
      using h by blast
    with k(2) show False
      by (cases "col ?s") (simp_all add: colOr0_def)
  qed
  have cons: "consecutiveCols (seats c)"
    using assms by (rule buildAllChunks_consecutive)
  have "length (seats c) = 1"
  proof (rule ccontr)
    assume "length (seats c) \<noteq> 1"
    with i(1) have two: "2 \<le> length (seats c)" by simp
    show False
    proof (cases "Suc i < length (seats c)")
      case True
      with cons have "colOr0 (seats c ! Suc i) = colOr0 (seats c ! i) + 1"
        by (simp add: consecutiveCols_def)
      with i(2) u0 have "colOr0 (seats c ! Suc i) = 1" by simp
      with other [OF True] show False by simp
    next
      case False
      with two i(1) obtain k where k: "i = Suc k" by (cases i) auto
      with i(1) cons have "colOr0 (seats c ! Suc k) = colOr0 (seats c ! k) + 1"
        by (simp add: consecutiveCols_def)
      with i(2) k u0 have "colOr0 (seats c ! k) = - 1" by simp
      moreover from k i(1) have "k < length (seats c)" by simp
      ultimately show False using other by blast
    qed
  qed
  with i show "seats c = [u]"
    by (cases "seats c") auto
qed

theorem buildAllChunks_columns_witness:
  "mkChunk id [bareSeat ''s1'' (Some ''A'') (Some 3) None 10,
            bareSeat ''s2'' (Some ''A'') (Some 3) (Some 1) 20]
     \<in> set (buildAllChunks id [bareSeat ''s1'' (Some ''A'') (Some 3) None 10,
                             bareSeat ''s2'' (Some ''A'') (Some 3) (Some 1) 20])
   \<and> (0::nat) < 1
   \<and> 1 < length (seats (mkChunk id [bareSeat ''s1'' (Some ''A'') (Some 3) None 10,
                                   bareSeat ''s2'' (Some ''A'') (Some 3) (Some 1) 20]))
   \<and> colOr0 (bareSeat ''s2'' (Some ''A'') (Some 3) (Some 1) 20)
       = colOr0 (bareSeat ''s1'' (Some ''A'') (Some 3) None 10) + 1
   \<and> blockOf (bareSeat ''s2'' (Some ''A'') (Some 3) (Some 1) 20)
       = blockOf (bareSeat ''s1'' (Some ''A'') (Some 3) None 10)
   \<and> rowOf (bareSeat ''s2'' (Some ''A'') (Some 3) (Some 1) 20)
       = rowOf (bareSeat ''s1'' (Some ''A'') (Some 3) None 10)
   \<and> \<not> (col (bareSeat ''s1'' (Some ''A'') (Some 3) None 10) = None
        \<and> col (bareSeat ''s2'' (Some ''A'') (Some 3) (Some 1) 20) = None)
   \<and> mkChunk id [bareSeat ''s1'' (Some ''A'') (Some 3) None 10]
     \<in> set (buildAllChunks id [bareSeat ''s1'' (Some ''A'') (Some 3) None 10,
                             bareSeat ''s3'' (Some ''A'') (Some 3) (Some 2) 20])
   \<and> col (bareSeat ''s1'' (Some ''A'') (Some 3) None 10) = None
   \<and> col (bareSeat ''s3'' (Some ''A'') (Some 3) (Some 2) 20) = Some 2
   \<and> seats (mkChunk id [bareSeat ''s1'' (Some ''A'') (Some 3) None 10])
       = [bareSeat ''s1'' (Some ''A'') (Some 3) None 10]"
proof -
  have m: "mkChunk id [bareSeat ''s1'' (Some ''A'') (Some 3) None 10,
            bareSeat ''s2'' (Some ''A'') (Some 3) (Some 1) 20]
     \<in> set (buildAllChunks id [bareSeat ''s1'' (Some ''A'') (Some 3) None 10,
                             bareSeat ''s2'' (Some ''A'') (Some 3) (Some 1) 20])"
    by (simp add: buildAllChunks_def grouped_def chunkKey_def bareSeat_def colOr0_def
        scanRow_unfold js_slice_def show_int_def show_nat.simps)
  have m2: "mkChunk id [bareSeat ''s1'' (Some ''A'') (Some 3) None 10]
     \<in> set (buildAllChunks id [bareSeat ''s1'' (Some ''A'') (Some 3) None 10,
                             bareSeat ''s3'' (Some ''A'') (Some 3) (Some 2) 20])"
    by (simp add: buildAllChunks_def grouped_def chunkKey_def bareSeat_def colOr0_def
        scanRow_unfold js_slice_def show_int_def show_nat.simps)
  have h: "col (bareSeat ''s1'' (Some ''A'') (Some 3) None 10) = None
     \<and> (\<forall>s \<in> set [bareSeat ''s1'' (Some ''A'') (Some 3) None 10,
                  bareSeat ''s3'' (Some ''A'') (Some 3) (Some 2) 20].
         blockOf s = blockOf (bareSeat ''s1'' (Some ''A'') (Some 3) None 10)
         \<and> rowOf s = rowOf (bareSeat ''s1'' (Some ''A'') (Some 3) None 10)
         \<longrightarrow> col s \<noteq> Some 1 \<and> col s \<noteq> Some (- 1))"
    by (simp add: bareSeat_def)
  from buildAllChunks_columns [OF m, THEN conjunct1, rule_format, of 0 1]
  have a: "colOr0 (bareSeat ''s2'' (Some ''A'') (Some 3) (Some 1) 20)
       = colOr0 (bareSeat ''s1'' (Some ''A'') (Some 3) None 10) + 1
   \<and> blockOf (bareSeat ''s2'' (Some ''A'') (Some 3) (Some 1) 20)
       = blockOf (bareSeat ''s1'' (Some ''A'') (Some 3) None 10)
   \<and> rowOf (bareSeat ''s2'' (Some ''A'') (Some 3) (Some 1) 20)
       = rowOf (bareSeat ''s1'' (Some ''A'') (Some 3) None 10)
   \<and> \<not> (col (bareSeat ''s1'' (Some ''A'') (Some 3) None 10) = None
        \<and> col (bareSeat ''s2'' (Some ''A'') (Some 3) (Some 1) 20) = None)"
    by simp
  from buildAllChunks_columns [OF m2, THEN conjunct2, rule_format,
      of "bareSeat ''s1'' (Some ''A'') (Some 3) None 10"] h
  have b: "seats (mkChunk id [bareSeat ''s1'' (Some ''A'') (Some 3) None 10])
       = [bareSeat ''s1'' (Some ''A'') (Some 3) None 10]"
    by simp
  have h': "col (bareSeat ''s3'' (Some ''A'') (Some 3) (Some 2) 20) = Some 2"
    by (simp add: bareSeat_def)
  from m a m2 h h' b show ?thesis by simp
qed

subsection \<open>Group allocator\<close>

lemma js_slice_to_zero: "0 \<le> k \<Longrightarrow> js_slice xs k 0 = []"
  by (simp add: js_slice_def Let_def)

lemma getSubChunks_Inr:
  assumes "getSubChunks fl chunk gs = Inr subs" and "cand \<in> set subs"
  shows "1 \<le> gs"
    and "set (seats cand) \<subseteq> set (seats chunk)"
    and "int (length (seats cand)) = gs"
proof -
  let ?n = "int (length (seats chunk))"
  let ?sl = "map (\<lambda>i. js_slice (seats chunk) i (i + gs)) [0 .. ?n - gs]"
  from assms have le: "gs \<le> ?n"
    by (auto simp: getSubChunks_def split: if_splits)
  with assms(1) have none: "[] \<notin> set ?sl" and subs: "subs = map (mkChunk fl) ?sl"
    by (auto simp: getSubChunks_def Let_def split: if_splits)
  show one: "1 \<le> gs"
  proof (rule ccontr)
    assume "\<not> 1 \<le> gs"
    then have g: "gs \<le> 0" by simp
    then have "- gs \<in> set [0 .. ?n - gs]" by simp
    then have "js_slice (seats chunk) (- gs) (- gs + gs)
        \<in> (\<lambda>i. js_slice (seats chunk) i (i + gs)) ` set [0 .. ?n - gs]"
      by (rule imageI)
    then have "js_slice (seats chunk) (- gs) (- gs + gs) \<in> set ?sl"
      by (simp only: set_map)
    moreover have "js_slice (seats chunk) (- gs) (- gs + gs) = []"
      using g by (simp add: js_slice_to_zero)
    ultimately show False
      using none by simp
  qed
  from assms(2) subs obtain i where i: "0 \<le> i" "i \<le> ?n - gs"
    "cand = mkChunk fl (js_slice (seats chunk) i (i + gs))"
    by auto
  show "set (seats cand) \<subseteq> set (seats chunk)"
    using i(3) set_js_slice [of "seats chunk" i "i + gs"] by simp
  have "length (seats cand) = nat gs"
    using i one by (simp add: js_slice_window)
  with one show "int (length (seats cand)) = gs" by simp
qed

lemma collectSubChunks_Inr:
  "collectSubChunks fl gs chunks = Inr cands \<Longrightarrow> cand \<in> set cands
   \<Longrightarrow> \<exists>chunk \<in> set chunks. \<exists>subs. getSubChunks fl chunk gs = Inr subs \<and> cand \<in> set subs"
proof (induction chunks arbitrary: cands)
  case Nil
  then show ?case by simp
next
  case (Cons chunk rest)
  from Cons.prems(1) obtain subs others
    where s: "getSubChunks fl chunk gs = Inr subs" "collectSubChunks fl gs rest = Inr others"
      "cands = subs @ others"
    by (auto split: sum.splits)
  with Cons.prems(2) have "cand \<in> set subs \<or> cand \<in> set others" by simp
  then show ?case
  proof
    assume "cand \<in> set subs"
    with s(1) show ?thesis by auto
  next
    assume "cand \<in> set others"
    from Cons.IH [OF s(2) this] show ?thesis by auto
  qed
qed

lemma candidateChunks_seats:
  assumes "candidateChunks fl gs available = Inr cands" and "cand \<in> set cands"
  shows "1 \<le> gs"
    and "set (seats cand) \<subseteq> set available"
    and "int (length (seats cand)) = gs"
proof -
  from collectSubChunks_Inr [OF assms [unfolded candidateChunks_def]] obtain chunk subs
    where c: "chunk \<in> set (buildAllChunks fl available)" "getSubChunks fl chunk gs = Inr subs"
      "cand \<in> set subs"
    by blast
  show "1 \<le> gs" and "int (length (seats cand)) = gs"
    using getSubChunks_Inr(1,3) [OF c(2,3)] by simp_all
  from getSubChunks_Inr(2) [OF c(2,3)] buildAllChunks_subset [OF c(1)]
  show "set (seats cand) \<subseteq> set available" by blast
qed

lemma seats_applySoloBonus: "map seats (applySoloBonus fl cands adj) = map seats cands"
  by (simp add: applySoloBonus_def Let_def split: list.splits)

lemma seats_bonusCandidates:
  "map seats (bonusCandidates fl gs ss assigned solo cands) = map seats cands"
  by (simp add: bonusCandidates_def seats_applySoloBonus split: option.splits)

lemma findAndAllocateSeats_candidate:
  assumes "findAndAllocateSeats fl gs ss assigned solo = Inr (Some chosen)"
  shows "\<exists>cands. candidateChunks fl gs (filter (\<lambda>s. seat_id s \<notin> assigned) ss) = Inr cands
     \<and> (\<exists>cand \<in> set cands. chosen = seats cand)"
proof -
  from findAndAllocateSeats_Some [OF assms] obtain cands
    where c: "candidateChunks fl gs (filter (\<lambda>s. seat_id s \<notin> assigned) ss) = Inr cands"
      and ne: "cands \<noteq> []"
      and r: "chosen = seats (hd (sort_key (\<lambda>c. - avgScore c)
                                    (bonusCandidates fl gs ss assigned solo cands)))"
    by blast
  let ?bc = "bonusCandidates fl gs ss assigned solo cands"
  from ne have "?bc \<noteq> []"
    using length_bonusCandidates [of fl gs ss assigned solo cands] by auto
  then have "sort_key (\<lambda>c. - avgScore c) ?bc \<noteq> []"
    by (simp add: sort_key_Nil_iff)
  then have "hd (sort_key (\<lambda>c. - avgScore c) ?bc) \<in> set (sort_key (\<lambda>c. - avgScore c) ?bc)"
    by (rule hd_in_set)
  then have "hd (sort_key (\<lambda>c. - avgScore c) ?bc) \<in> set ?bc"
    by simp
  with r have "chosen \<in> set (map seats ?bc)"
    by simp
  then have "\<exists>cand \<in> set cands. chosen = seats cand"
    unfolding seats_bonusCandidates by auto
  with c show ?thesis by blast
qed

lemma findAndAllocateSeats_seats:
  assumes "findAndAllocateSeats fl gs ss assigned solo = Inr (Some chosen)"
  shows "seat_id ` set chosen \<inter> assigned = {}"
    and "1 \<le> gs"
    and "int (length chosen) = gs"
proof -
  from findAndAllocateSeats_candidate [OF assms] obtain cands cand
    where c: "candidateChunks fl gs (filter (\<lambda>s. seat_id s \<notin> assigned) ss) = Inr cands"
      "cand \<in> set cands" "chosen = seats cand"
    by blast
  from candidateChunks_seats(2) [OF c(1,2)] c(3)
  show "seat_id ` set chosen \<inter> assigned = {}" by auto
  show "1 \<le> gs" and "int (length chosen) = gs"
    using candidateChunks_seats(1,3) [OF c(1,2)] c(3) by simp_all
qed

subsection \<open>Run builder: every contiguous run is found\<close>

lemma map_fst_groupPush:
  "map fst (groupPush g k s) = (if k \<in> fst ` set g then map fst g else map fst g @ [k])"
  by (induction g k s rule: groupPush.induct) auto

lemma map_of_groupPush:
  "map_of (groupPush g k s) k' =
     (if k' = k then Some (case map_of g k of None \<Rightarrow> [s] | Some v \<Rightarrow> v @ [s]) else map_of g k')"
  by (induction g k s rule: groupPush.induct) auto

lemma grouped_snoc: "grouped (ss @ [s]) = groupPush (grouped ss) (chunkKey s) s"
  by (simp add: grouped_def)

lemma grouped_char:
  "distinct (map fst (grouped ss))
   \<and> (\<forall>k. map_of (grouped ss) k =
          (if filter (\<lambda>s. chunkKey s = k) ss = [] then None
           else Some (filter (\<lambda>s. chunkKey s = k) ss)))"
proof (induction ss rule: rev_induct)
  case Nil
  show ?case by (simp add: grouped_def)
next
  case (snoc s ss)
  have d: "distinct (map fst (grouped (ss @ [s])))"
    using snoc by (simp add: grouped_snoc map_fst_groupPush)
  have "\<forall>k. map_of (grouped (ss @ [s])) k =
          (if filter (\<lambda>s. chunkKey s = k) (ss @ [s]) = [] then None
           else Some (filter (\<lambda>s. chunkKey s = k) (ss @ [s])))"
  proof
    fix k
    from snoc have m: "\<And>k. map_of (grouped ss) k =
          (if filter (\<lambda>s. chunkKey s = k) ss = [] then None
           else Some (filter (\<lambda>s. chunkKey s = k) ss))"
      by blast
    show "map_of (grouped (ss @ [s])) k =
          (if filter (\<lambda>s. chunkKey s = k) (ss @ [s]) = [] then None
           else Some (filter (\<lambda>s. chunkKey s = k) (ss @ [s])))"
      by (simp add: grouped_snoc map_of_groupPush m)
  qed
  with d show ?case by blast
qed

lemma grouped_iff:
  "(k, v) \<in> set (grouped ss) \<longleftrightarrow> v = filter (\<lambda>s. chunkKey s = k) ss \<and> v \<noteq> []"
proof -
  have d: "distinct (map fst (grouped ss))"
    using grouped_char [of ss] by blast
  have "(k, v) \<in> set (grouped ss) \<longleftrightarrow> map_of (grouped ss) k = Some v"
    by (simp only: map_of_eq_Some_iff [OF d])
  also have "\<dots> \<longleftrightarrow> v = filter (\<lambda>s. chunkKey s = k) ss \<and> v \<noteq> []"
    using grouped_char [of ss] by auto
  finally show ?thesis .
qed

lemma strict_next:
  fixes cs :: "int list"
  assumes "sorted_wrt (<) cs" "p < length cs" "cs ! p + 1 \<in> set cs"
  shows "Suc p < length cs \<and> cs ! Suc p = cs ! p + 1"
proof -
  from assms(3) obtain q where q: "q < length cs" "cs ! q = cs ! p + 1"
    by (auto simp: in_set_conv_nth)
  have pq: "p < q"
  proof (rule ccontr)
    assume "\<not> p < q"
    then have "q = p \<or> q < p" by auto
    then show False
    proof
      assume "q = p" with q(2) show False by simp
    next
      assume "q < p"
      with assms(1,2) have "cs ! q < cs ! p" by (simp add: sorted_wrt_nth_less)
      with q(2) show False by simp
    qed
  qed
  with q(1) have l: "Suc p < length cs" by simp
  have "cs ! p < cs ! Suc p"
    using assms(1) l by (simp add: sorted_wrt_nth_less)
  moreover have "cs ! Suc p \<le> cs ! q"
  proof (cases "Suc p = q")
    case True then show ?thesis by simp
  next
    case False
    with pq have "Suc p < q" by simp
    with assms(1) q(1) have "cs ! Suc p < cs ! q" by (simp add: sorted_wrt_nth_less)
    then show ?thesis by simp
  qed
  ultimately have "cs ! Suc p = cs ! p + 1" using q(2) by simp
  with l show ?thesis by simp
qed

lemma run_in_row:
  assumes s: "sorted_wrt (<) (map colOr0 rw)"
    and sub: "set xs \<subseteq> set rw"
    and cc: "consecutiveCols xs"
    and ne: "xs \<noteq> []"
  shows "\<exists>p. p + length xs \<le> length rw \<and> xs = take (length xs) (drop p rw)"
proof -
  have d: "distinct (map colOr0 rw)"
    using s by (simp add: strict_sorted_iff)
  then have inj: "inj_on colOr0 (set rw)"
    by (simp add: distinct_map)
  from ne sub have "xs ! 0 \<in> set rw"
    by (metis length_greater_0_conv nth_mem subsetD)
  then obtain p where p: "p < length rw" "rw ! p = xs ! 0"
    by (auto simp: in_set_conv_nth)
  have step: "i < length xs \<Longrightarrow> p + i < length rw \<and> rw ! (p + i) = xs ! i" for i
  proof (induction i)
    case 0
    with p show ?case by simp
  next
    case (Suc i)
    then have ih: "p + i < length rw" "rw ! (p + i) = xs ! i" by simp_all
    have c: "colOr0 (xs ! Suc i) = colOr0 (xs ! i) + 1"
      using cc Suc.prems by (simp add: consecutiveCols_def)
    have mem: "xs ! Suc i \<in> set rw"
      using sub Suc.prems by (metis nth_mem subsetD)
    then have "colOr0 (xs ! Suc i) \<in> set (map colOr0 rw)" by simp
    with c ih have "map colOr0 rw ! (p + i) + 1 \<in> set (map colOr0 rw)" by simp
    from strict_next [OF s _ this] ih(1)
    have n: "Suc (p + i) < length rw"
      "map colOr0 rw ! Suc (p + i) = map colOr0 rw ! (p + i) + 1"
      by simp_all
    then have "colOr0 (rw ! Suc (p + i)) = colOr0 (xs ! Suc i)"
      using ih c by simp
    moreover have "rw ! Suc (p + i) \<in> set rw" using n(1) by simp
    ultimately have "rw ! Suc (p + i) = xs ! Suc i"
      using inj mem by (auto dest: inj_onD)
    with n(1) show ?case by simp
  qed
  have len: "p + length xs \<le> length rw"
  proof -
    from ne have "length xs - 1 < length xs" by simp
    from step [OF this] ne show ?thesis by (cases xs) simp_all
  qed
  have "xs = take (length xs) (drop p rw)"
  proof (rule nth_equalityI)
    show "length xs = length (take (length xs) (drop p rw))"
      using len by simp
  next
    fix i assume "i < length xs"
    with step [OF this] len show "xs ! i = take (length xs) (drop p rw) ! i"
      by simp
  qed
  with len show ?thesis by blast
qed

lemma scanRow_covers:
  assumes "chunkStart \<le> a" "a < b" "b \<le> length rowSeats" "chunkStart < i" "i \<le> length rowSeats"
    and "\<forall>j. a < j \<and> j < b \<longrightarrow> colOr0 (rowSeats ! j) = colOr0 (rowSeats ! (j - 1)) + 1"
  shows "\<exists>c \<in> set (scanRow fl rowSeats chunkStart i). \<exists>s e. s \<le> a \<and> b \<le> e \<and> e \<le> length rowSeats
           \<and> seats c = take (e - s) (drop s rowSeats)"
  using assms
proof (induction fl rowSeats chunkStart i rule: scanRow.induct)
  case (1 fl rowSeats chunkStart i)
  note le = "1.prems"(5)
  show ?case
  proof (cases "i = length rowSeats
        \<or> colOr0 (rowSeats ! i) \<noteq> colOr0 (rowSeats ! (i - 1)) + 1")
    case True
    have unf: "scanRow fl rowSeats chunkStart i
        = mkChunk fl (js_slice rowSeats (int chunkStart) (int i)) # scanRow fl rowSeats i (i + 1)"
      using True le by (subst scanRow_unfold) simp
    show ?thesis
    proof (cases "b \<le> i")
      case b: True
      have "seats (mkChunk fl (js_slice rowSeats (int chunkStart) (int i)))
          = take (i - chunkStart) (drop chunkStart rowSeats)"
        using le "1.prems"(4) by (simp add: js_slice_nat)
      with b le "1.prems"(1) unf show ?thesis
        by (intro bexI [of _ "mkChunk fl (js_slice rowSeats (int chunkStart) (int i))"]
            exI [of _ chunkStart] exI [of _ i]) simp_all
    next
      case False
      then have ib: "i < b" by simp
      with "1.prems"(3) have nend: "i \<noteq> length rowSeats" by simp
      with True have brk: "colOr0 (rowSeats ! i) \<noteq> colOr0 (rowSeats ! (i - 1)) + 1" by simp
      have ia: "i \<le> a"
      proof (rule ccontr)
        assume "\<not> i \<le> a"
        with ib "1.prems"(6) brk show False by auto
      qed
      have "\<exists>c \<in> set (scanRow fl rowSeats i (i + 1)). \<exists>s e. s \<le> a \<and> b \<le> e
          \<and> e \<le> length rowSeats \<and> seats c = take (e - s) (drop s rowSeats)"
      proof (rule "1.IH"(1) [OF le refl refl _ ia "1.prems"(2,3) _ _ "1.prems"(6)])
        show "i = length rowSeats
            \<or> \<not> i = length rowSeats
              \<and> colOr0 (rowSeats ! i) \<noteq> colOr0 (rowSeats ! (i - 1)) + 1"
          using True by blast
        show "i < i + 1" by simp
        show "i + 1 \<le> length rowSeats" using nend le by simp
      qed
      with unf show ?thesis by auto
    qed
  next
    case False
    have unf: "scanRow fl rowSeats chunkStart i = scanRow fl rowSeats chunkStart (i + 1)"
      using False le by (subst scanRow_unfold) simp
    have "\<exists>c \<in> set (scanRow fl rowSeats chunkStart (i + 1)). \<exists>s e. s \<le> a \<and> b \<le> e
          \<and> e \<le> length rowSeats \<and> seats c = take (e - s) (drop s rowSeats)"
    proof (rule "1.IH"(2) [OF le refl refl _ "1.prems"(1,2,3) _ _ "1.prems"(6)])
      show "\<not> (i = length rowSeats
            \<or> \<not> i = length rowSeats
              \<and> colOr0 (rowSeats ! i) \<noteq> colOr0 (rowSeats ! (i - 1)) + 1)"
        using False by blast
      show "chunkStart < i + 1" using "1.prems"(4) by simp
      show "i + 1 \<le> length rowSeats" using False le by simp
    qed
    with unf show ?thesis by simp
  qed
qed

lemma consecutiveCols_window:
  assumes "consecutiveCols xs"
  shows "consecutiveCols (take n (drop m xs))"
  unfolding consecutiveCols_def
proof (intro allI impI)
  fix i assume i: "Suc i < length (take n (drop m xs))"
  then have "Suc i < n" "Suc (m + i) < length xs" by auto
  then have "take n (drop m xs) ! Suc i = xs ! Suc (m + i)" "take n (drop m xs) ! i = xs ! (m + i)"
    by simp_all
  moreover have "colOr0 (xs ! Suc (m + i)) = colOr0 (xs ! (m + i)) + 1"
    using assms \<open>Suc (m + i) < length xs\<close> by (simp add: consecutiveCols_def)
  ultimately show "colOr0 (take n (drop m xs) ! Suc i) = colOr0 (take n (drop m xs) ! i) + 1"
    by simp
qed

lemma contiguousRun_window:
  assumes "contiguousRun xs"
  shows "contiguousRun (take n (drop m xs))"
proof -
  have "set (take n (drop m xs)) \<subseteq> set xs"
    by (meson set_take_subset set_drop_subset subset_trans)
  with assms consecutiveCols_window [of xs n m] show ?thesis
    unfolding contiguousRun_def by blast
qed

lemma buildAllChunks_contiguous:
  assumes "c \<in> set (buildAllChunks fl ss)"
  shows "contiguousRun (seats c)"
  unfolding contiguousRun_def
proof (intro conjI ballI)
  show "consecutiveCols (seats c)"
    using assms by (rule buildAllChunks_consecutive)
next
  fix s t assume "s \<in> set (seats c)" "t \<in> set (seats c)"
  with assms have "chunkKey s = chunkKey t" by (rule buildAllChunks_same_key)
  then show "blockOf s = blockOf t" "rowOf s = rowOf t"
    by (simp_all add: chunkKey_eq_iff)
qed

lemma roundedMean_mkChunk: "avgScore (mkChunk fl xs) = roundedMean fl xs"
  by (simp add: mkChunk_def roundedMean_def foldl_map)

lemma roundedMean_exact: "roundedMean id xs = sum_list (map score xs) / real (length xs)"
proof -
  have "foldl (\<lambda>acc x. acc + x) a ys = a + sum_list ys" for a :: real and ys
    by (induction ys arbitrary: a) simp_all
  from this [of 0 "map score xs"] show ?thesis
    by (simp add: roundedMean_def)
qed

lemma getSubChunks_sound:
  assumes "getSubChunks fl chunk gs = Inr subs" and "cand \<in> set subs"
  shows "\<exists>m. seats cand = take (nat gs) (drop m (seats chunk))"
    and "cand = mkChunk fl (seats cand)"
proof -
  let ?n = "int (length (seats chunk))"
  from assms have le: "gs \<le> ?n"
    by (auto simp: getSubChunks_def split: if_splits)
  with assms(1) have subs: "subs = map (mkChunk fl)
      (map (\<lambda>i. js_slice (seats chunk) i (i + gs)) [0 .. ?n - gs])"
    by (auto simp: getSubChunks_def Let_def split: if_splits)
  from getSubChunks_Inr(1) [OF assms] have one: "1 \<le> gs" .
  from assms(2) subs obtain i where i: "0 \<le> i" "i \<le> ?n - gs"
    "cand = mkChunk fl (js_slice (seats chunk) i (i + gs))"
    by auto
  have "js_slice (seats chunk) i (i + gs) = take (nat gs) (drop (nat i) (seats chunk))"
    using i(1,2) one by (simp add: js_slice_def Let_def min_def)
  with i(3) show "\<exists>m. seats cand = take (nat gs) (drop m (seats chunk))"
    by auto
  from i(3) show "cand = mkChunk fl (seats cand)" by simp
qed

lemma getSubChunks_complete:
  assumes "getSubChunks fl chunk gs = Inr subs" and "1 \<le> gs"
    and "m + nat gs \<le> length (seats chunk)"
  shows "mkChunk fl (take (nat gs) (drop m (seats chunk))) \<in> set subs"
proof -
  let ?n = "int (length (seats chunk))"
  from assms(2,3) have le: "gs \<le> ?n" by linarith
  with assms(1) have subs: "subs = map (mkChunk fl)
      (map (\<lambda>i. js_slice (seats chunk) i (i + gs)) [0 .. ?n - gs])"
    by (auto simp: getSubChunks_def Let_def split: if_splits)
  have m: "int m \<in> set [0 .. ?n - gs]"
    using assms(2,3) by simp
  have "js_slice (seats chunk) (int m) (int m + gs) = take (nat gs) (drop m (seats chunk))"
    using assms(2,3) by (simp add: js_slice_def Let_def min_def)
  then have "mkChunk fl (take (nat gs) (drop m (seats chunk)))
      = (\<lambda>i. mkChunk fl (js_slice (seats chunk) i (i + gs))) (int m)"
    by simp
  also have "\<dots> \<in> (\<lambda>i. mkChunk fl (js_slice (seats chunk) i (i + gs))) ` set [0 .. ?n - gs]"
    using m by (rule imageI)
  finally show ?thesis
    unfolding subs by (simp add: image_image comp_def)
qed

lemma collectSubChunks_complete:
  "collectSubChunks fl gs chunks = Inr cands \<Longrightarrow> chunk \<in> set chunks
   \<Longrightarrow> \<exists>subs. getSubChunks fl chunk gs = Inr subs \<and> set subs \<subseteq> set cands"
proof (induction chunks arbitrary: cands)
  case Nil
  then show ?case by simp
next
  case (Cons c rest)
  from Cons.prems(1) obtain subs others
    where s: "getSubChunks fl c gs = Inr subs" "collectSubChunks fl gs rest = Inr others"
      "cands = subs @ others"
    by (auto split: sum.splits)
  from Cons.prems(2) have "chunk = c \<or> chunk \<in> set rest" by auto
  then show ?case
  proof
    assume "chunk = c"
    with s show ?thesis by auto
  next
    assume "chunk \<in> set rest"
    from Cons.IH [OF s(2) this] s(3) show ?thesis by auto
  qed
qed

lemma candidateChunks_sound:
  assumes "candidateChunks fl gs available = Inr cands" and "cand \<in> set cands"
  shows "contiguousRun (seats cand)" and "avgScore cand = roundedMean fl (seats cand)"
proof -
  from collectSubChunks_Inr [OF assms [unfolded candidateChunks_def]] obtain chunk subs
    where c: "chunk \<in> set (buildAllChunks fl available)" "getSubChunks fl chunk gs = Inr subs"
      "cand \<in> set subs"
    by blast
  from getSubChunks_sound(1) [OF c(2,3)] obtain m
    where "seats cand = take (nat gs) (drop m (seats chunk))" by blast
  with contiguousRun_window [OF buildAllChunks_contiguous [OF c(1)], of "nat gs" m]
  show "contiguousRun (seats cand)" by simp
  from getSubChunks_sound(2) [OF c(2,3)] have "cand = mkChunk fl (seats cand)" .
  then have "avgScore cand = avgScore (mkChunk fl (seats cand))" by simp
  then show "avgScore cand = roundedMean fl (seats cand)"
    by (simp only: roundedMean_mkChunk)
qed

lemma distinctPositions_filter:
  "distinctPositions ss \<Longrightarrow> distinctPositions (filter P ss)"
  unfolding distinctPositions_def by (rule distinct_map_filter)

lemma row_strictly_sorted:
  assumes "distinctPositions ss"
  shows "sorted_wrt (<) (map colOr0 (sort_key colOr0 (filter (\<lambda>s. chunkKey s = k) ss)))"
proof -
  let ?v = "filter (\<lambda>s. chunkKey s = k) ss"
  from assms have dv: "distinct (map (\<lambda>s. (blockOf s, rowOf s, colOr0 s)) ?v)"
    unfolding distinctPositions_def by (rule distinct_map_filter)
  then have d: "distinct ?v" and inj: "inj_on (\<lambda>s. (blockOf s, rowOf s, colOr0 s)) (set ?v)"
    by (simp_all add: distinct_map)
  have "inj_on colOr0 (set ?v)"
  proof (rule inj_onI)
    fix s t assume st: "s \<in> set ?v" "t \<in> set ?v" "colOr0 s = colOr0 t"
    then have "chunkKey s = chunkKey t" by simp
    then have "blockOf s = blockOf t" "rowOf s = rowOf t"
      by (simp_all add: chunkKey_eq_iff)
    with st(3) have "(blockOf s, rowOf s, colOr0 s) = (blockOf t, rowOf t, colOr0 t)" by simp
    with inj st(1,2) show "s = t" by (auto dest: inj_onD)
  qed
  with d have "distinct (map colOr0 (sort_key colOr0 ?v))"
    by (simp add: distinct_map)
  moreover have "sorted (map colOr0 (sort_key colOr0 ?v))"
    by (rule sorted_sort_key)
  ultimately show ?thesis
    by (simp add: strict_sorted_iff)
qed

lemma candidateChunks_complete:
  assumes dp: "distinctPositions available"
    and cc: "candidateChunks fl gs available = Inr cands"
    and one: "1 \<le> gs"
    and sub: "set xs \<subseteq> set available"
    and len: "int (length xs) = gs"
    and run: "contiguousRun xs"
  shows "xs \<in> seats ` set cands"
proof -
  from one len have ne: "xs \<noteq> []" by auto
  define k where "k = chunkKey (hd xs)"
  let ?v = "filter (\<lambda>s. chunkKey s = k) available"
  let ?rw = "sort_key colOr0 ?v"
  have key: "chunkKey s = k" if "s \<in> set xs" for s
  proof -
    from ne have "hd xs \<in> set xs" by simp
    with run that have "blockOf s = blockOf (hd xs)" "rowOf s = rowOf (hd xs)"
      unfolding contiguousRun_def by blast+
    then show ?thesis by (simp add: k_def chunkKey_eq_iff)
  qed
  with sub have xv: "set xs \<subseteq> set ?v" by auto
  with ne have "hd xs \<in> set ?v" by (cases xs) auto
  then have vne: "?v \<noteq> []" by (metis empty_iff empty_set)
  then have g: "(k, ?v) \<in> set (grouped available)"
    by (simp add: grouped_iff)
  have srt: "sorted_wrt (<) (map colOr0 ?rw)"
    using dp by (rule row_strictly_sorted)
  have xr: "set xs \<subseteq> set ?rw" using xv by simp
  from run have cons: "consecutiveCols xs" by (simp add: contiguousRun_def)
  from run_in_row [OF srt xr cons ne] obtain p
    where p: "p + length xs \<le> length ?rw" "xs = take (length xs) (drop p ?rw)"
    by blast
  have nth: "xs ! n = ?rw ! (p + n)" if "n < length xs" for n
  proof -
    from p(2) have "xs ! n = take (length xs) (drop p ?rw) ! n"
      by (rule arg_cong [where f = "\<lambda>l. l ! n"])
    also have "\<dots> = ?rw ! (p + n)"
      using that p(1) by simp
    finally show ?thesis .
  qed
  have nobreak: "\<forall>j. p < j \<and> j < p + length xs
      \<longrightarrow> colOr0 (?rw ! j) = colOr0 (?rw ! (j - 1)) + 1"
  proof (intro allI impI)
    fix j assume j: "p < j \<and> j < p + length xs"
    define i where "i = j - p - 1"
    with j have i: "j = p + Suc i" "Suc i < length xs" by auto
    have a: "xs ! Suc i = ?rw ! (p + Suc i)"
      using i(2) by (rule nth)
    have b: "xs ! i = ?rw ! (p + i)"
      using i(2) by (intro nth) simp
    from cons i(2) have "colOr0 (xs ! Suc i) = colOr0 (xs ! i) + 1"
      by (simp add: consecutiveCols_def)
    with a b i(1) show "colOr0 (?rw ! j) = colOr0 (?rw ! (j - 1)) + 1" by simp
  qed
  have rne: "1 \<le> length ?rw" using vne by (cases ?v) simp_all
  have "\<exists>c \<in> set (scanRow fl ?rw 0 1). \<exists>s e. s \<le> p \<and> p + length xs \<le> e \<and> e \<le> length ?rw
           \<and> seats c = take (e - s) (drop s ?rw)"
    using ne p(1) rne nobreak by (intro scanRow_covers) simp_all
  then obtain c s e where c: "c \<in> set (scanRow fl ?rw 0 1)" "s \<le> p" "p + length xs \<le> e"
    "e \<le> length ?rw" "seats c = take (e - s) (drop s ?rw)"
    by blast
  from g c(1) have cb: "c \<in> set (buildAllChunks fl available)"
    by (auto simp: buildAllChunks_def)
  from collectSubChunks_complete [OF cc [unfolded candidateChunks_def] cb] obtain subs
    where subs: "getSubChunks fl c gs = Inr subs" "set subs \<subseteq> set cands"
    by blast
  have lc: "length (seats c) = e - s" using c(4,5) by simp
  from len one have ng: "nat gs = length xs" by simp
  have fit: "(p - s) + nat gs \<le> length (seats c)"
    using lc ng c(2,3) by simp
  from getSubChunks_complete [OF subs(1) one fit]
  have m: "mkChunk fl (take (nat gs) (drop (p - s) (seats c))) \<in> set subs" .
  have "take (nat gs) (drop (p - s) (seats c)) = take (length xs) (drop p ?rw)"
  proof -
    have "drop (p - s) (take (e - s) (drop s ?rw)) = take (e - p) (drop p ?rw)"
      using c(2,3) by (simp add: drop_take)
    then have "take (length xs) (drop (p - s) (seats c))
        = take (length xs) (take (e - p) (drop p ?rw))"
      using c(5) by simp
    also have "\<dots> = take (length xs) (drop p ?rw)"
      using c(3) by (simp add: min_def)
    finally show ?thesis using ng by simp
  qed
  with p(2) have "take (nat gs) (drop (p - s) (seats c)) = xs" by simp
  with m have "mkChunk fl xs \<in> set subs" by simp
  with subs(2) have "mkChunk fl xs \<in> set cands" by blast
  then have "seats (mkChunk fl xs) \<in> seats ` set cands" by (rule imageI)
  then show ?thesis by simp
qed

subsection \<open>Group allocator: the solo bonus\<close>

lemma fold_max_Max: "fold max xs (a::real) = Max (insert a (set xs))"
  using Max.set_eq_fold [of a xs] by simp

lemma avgScore_applySoloBonus:
  assumes "j < length cands"
  shows "avgScore (applySoloBonus fl cands adj ! j) =
     (if (case seats (cands ! j) of [] \<Rightarrow> False | s # _ \<Rightarrow> seat_id s \<noteq> [] \<and> seat_id s \<in> adj)
      then fl (avgScore (cands ! j) + fl (Max (insert 1 (avgScore ` set cands)) * fl 0.2))
      else avgScore (cands ! j))"
proof (cases "adj = {}")
  case True
  then show ?thesis
    by (simp add: applySoloBonus_def split: list.splits)
next
  case False
  with assms show ?thesis
    by (simp add: applySoloBonus_def Let_def fold_max_Max split: list.splits)
qed

lemma soloAdjacentIds_empty: "soloAdjacentIds ss assigned {} = {}"
  by (simp add: soloAdjacentIds_def)

lemma avgScore_bonusCandidates:
  assumes "j < length cands" and "seats (cands ! j) \<noteq> []"
  shows "avgScore (bonusCandidates fl gs ss assigned solo cands ! j) =
     (if gs = 1 \<and> (\<exists>S. solo = Some S \<and> seat_id (hd (seats (cands ! j))) \<noteq> []
                         \<and> seat_id (hd (seats (cands ! j))) \<in> soloAdjacentIds ss assigned S)
      then fl (avgScore (cands ! j) + fl (Max (insert 1 (avgScore ` set cands)) * fl 0.2))
      else avgScore (cands ! j))"
proof (cases solo)
  case None
  then show ?thesis by (simp add: bonusCandidates_def)
next
  case (Some S)
  from assms(2) obtain s rest where sr: "seats (cands ! j) = s # rest"
    by (cases "seats (cands ! j)") auto
  show ?thesis
  proof (cases "gs = 1 \<and> S \<noteq> {}")
    case True
    with Some sr assms(1) show ?thesis
      by (simp add: bonusCandidates_def avgScore_applySoloBonus)
  next
    case False
    with Some sr show ?thesis
      by (auto simp: bonusCandidates_def soloAdjacentIds_empty)
  qed
qed

lemma seatMap_snoc: "seatMap (ss @ [s]) = (seatMap ss)(seat_id s \<mapsto> s)"
  by (simp add: seatMap_def)

lemma seatMap_Some:
  "distinct (map seat_id ss) \<Longrightarrow> seatMap ss i = Some t \<longleftrightarrow> t \<in> set ss \<and> seat_id t = i"
proof (induction ss rule: rev_induct)
  case Nil
  show ?case by (simp add: seatMap_def)
next
  case (snoc s ss)
  then have ih: "seatMap ss i = Some t \<longleftrightarrow> t \<in> set ss \<and> seat_id t = i"
    and new: "seat_id s \<notin> seat_id ` set ss"
    by simp_all
  show ?case
  proof (cases "i = seat_id s")
    case True
    have "t \<in> set ss \<Longrightarrow> seat_id t \<noteq> seat_id s"
    proof
      assume "t \<in> set ss" "seat_id t = seat_id s"
      then have "seat_id s \<in> seat_id ` set ss" by (metis imageI)
      with new show False by simp
    qed
    with True show ?thesis by (auto simp: seatMap_snoc)
  next
    case False
    with ih show ?thesis by (auto simp: seatMap_snoc)
  qed
qed

lemma gridMap_snoc:
  "gridMap (ss @ [s]) =
     (case (blockId s, row s, col s) of
        (Some b, Some r, Some c) \<Rightarrow> (gridMap ss)(gridKey b r c \<mapsto> seat_id s)
      | _ \<Rightarrow> gridMap ss)"
  by (simp add: gridMap_def split: option.splits)

lemma gridMap_Some:
  "distinctPositions ss \<Longrightarrow>
     gridMap ss key = Some i \<longleftrightarrow>
       (\<exists>n \<in> set ss. \<exists>b r c. blockId n = Some b \<and> row n = Some r \<and> col n = Some c
            \<and> key = gridKey b r c \<and> i = seat_id n)"
proof (induction ss rule: rev_induct)
  case Nil
  show ?case by (simp add: gridMap_def)
next
  case (snoc s ss)
  define P where "P n \<longleftrightarrow> (\<exists>b r c. blockId n = Some b \<and> row n = Some r \<and> col n = Some c
            \<and> key = gridKey b r c \<and> i = seat_id n)" for n :: SeatWithScore
  from snoc.prems have dp: "distinctPositions ss"
    and new: "(blockOf s, rowOf s, colOr0 s) \<notin> (\<lambda>s. (blockOf s, rowOf s, colOr0 s)) ` set ss"
    by (simp_all add: distinctPositions_def)
  from snoc.IH [OF dp]
  have ih: "gridMap ss key = Some i \<longleftrightarrow> (\<exists>n \<in> set ss. P n)"
    unfolding P_def .
  have "gridMap (ss @ [s]) key = Some i \<longleftrightarrow> (\<exists>n \<in> set (ss @ [s]). P n)"
  proof (cases "\<exists>b r c. blockId s = Some b \<and> row s = Some r \<and> col s = Some c")
    case False
    then have g: "gridMap (ss @ [s]) = gridMap ss"
      by (auto simp: gridMap_snoc split: option.splits)
    from False have "\<not> P s" unfolding P_def by blast
    then have "(\<exists>n \<in> set (ss @ [s]). P n) \<longleftrightarrow> (\<exists>n \<in> set ss. P n)"
      by auto
    with g ih show ?thesis by simp
  next
    case True
    then obtain b r c where brc: "blockId s = Some b" "row s = Some r" "col s = Some c"
      by blast
    then have g: "gridMap (ss @ [s]) = (gridMap ss)(gridKey b r c \<mapsto> seat_id s)"
      by (simp add: gridMap_snoc)
    have fresh: "\<not> (blockId n = Some b \<and> row n = Some r \<and> col n = Some c)" if "n \<in> set ss" for n
    proof
      assume "blockId n = Some b \<and> row n = Some r \<and> col n = Some c"
      with brc have "(blockOf n, rowOf n, colOr0 n) = (blockOf s, rowOf s, colOr0 s)"
        by (simp add: blockOf_def rowOf_def colOr0_def)
      moreover have "(blockOf n, rowOf n, colOr0 n)
          \<in> (\<lambda>s. (blockOf s, rowOf s, colOr0 s)) ` set ss"
        using that by (rule imageI)
      ultimately show False using new by simp
    qed
    show ?thesis
    proof (cases "key = gridKey b r c")
      case k: True
      have old: "\<not> P n" if "n \<in> set ss" for n
      proof
        assume "P n"
        then obtain b' r' c' where n: "blockId n = Some b'" "row n = Some r'" "col n = Some c'"
          "key = gridKey b' r' c'"
          unfolding P_def by blast
        from n(4) k have "b' = b \<and> r' = r \<and> c' = c"
          by (simp add: gridKey_eq_iff)
        with n(1-3) fresh [OF that] show False by simp
      qed
      have "P s \<longleftrightarrow> i = seat_id s"
        unfolding P_def using brc k by (auto simp: gridKey_eq_iff)
      with old have "(\<exists>n \<in> set (ss @ [s]). P n) \<longleftrightarrow> i = seat_id s"
        by auto
      with g k show ?thesis by auto
    next
      case k: False
      have "\<not> P s"
        unfolding P_def using brc k by auto
      then have "(\<exists>n \<in> set (ss @ [s]). P n) \<longleftrightarrow> (\<exists>n \<in> set ss. P n)"
        by auto
      with g k ih show ?thesis by simp
    qed
  qed
  then show ?case unfolding P_def .
qed

lemma neighbourOffsets_iff:
  "(dr, dc) \<in> set neighbourOffsets \<longleftrightarrow> \<bar>dr\<bar> \<le> 1 \<and> \<bar>dc\<bar> \<le> 1 \<and> (dr, dc) \<noteq> (0, 0)"
proof
  assume "(dr, dc) \<in> set neighbourOffsets"
  then show "\<bar>dr\<bar> \<le> 1 \<and> \<bar>dc\<bar> \<le> 1 \<and> (dr, dc) \<noteq> (0, 0)"
    by (auto simp: neighbourOffsets_def)
next
  assume a: "\<bar>dr\<bar> \<le> 1 \<and> \<bar>dc\<bar> \<le> 1 \<and> (dr, dc) \<noteq> (0, 0)"
  then have "dr = -1 \<or> dr = 0 \<or> dr = 1" "dc = -1 \<or> dc = 0 \<or> dc = 1"
    by linarith+
  with a show "(dr, dc) \<in> set neighbourOffsets"
    by (auto simp: neighbourOffsets_def)
qed

lemma soloAdjacent_iff:
  assumes di: "distinct (map seat_id ss)" and dp: "distinctPositions ss"
  shows "x \<in> soloAdjacent ss assigned soloId \<longleftrightarrow>
     (\<exists>n \<in> set ss. \<exists>t \<in> set ss. seat_id t = soloId \<and> adjacentSeats t n
         \<and> x = seat_id n \<and> x \<noteq> [] \<and> x \<notin> assigned)"
proof
  assume x: "x \<in> soloAdjacent ss assigned soloId"
  then obtain t where t: "seatMap ss soloId = Some t"
    by (auto simp: soloAdjacent_def split: option.splits)
  with di have tin: "t \<in> set ss" "seat_id t = soloId"
    by (simp_all add: seatMap_Some)
  from x t have "x \<in> (case (blockId t, row t, col t) of
             (Some b, Some r, Some c) \<Rightarrow>
               set (concat (map (\<lambda>(dr, dc).
                      case gridMap ss (gridKey b (r + dr) (c + dc)) of
                        None \<Rightarrow> []
                      | Some nId \<Rightarrow> if nId \<noteq> [] \<and> nId \<notin> assigned then [nId] else [])
                    neighbourOffsets))
           | _ \<Rightarrow> {})"
    by (simp add: soloAdjacent_def)
  then obtain b r c where brc: "blockId t = Some b" "row t = Some r" "col t = Some c"
    and xin: "x \<in> set (concat (map (\<lambda>(dr, dc).
                      case gridMap ss (gridKey b (r + dr) (c + dc)) of
                        None \<Rightarrow> []
                      | Some nId \<Rightarrow> if nId \<noteq> [] \<and> nId \<notin> assigned then [nId] else [])
                    neighbourOffsets))"
    by (cases "blockId t"; cases "row t"; cases "col t") simp_all
  from xin have "\<exists>p \<in> set neighbourOffsets. x \<in> set ((\<lambda>(dr, dc).
                      case gridMap ss (gridKey b (r + dr) (c + dc)) of
                        None \<Rightarrow> []
                      | Some nId \<Rightarrow> if nId \<noteq> [] \<and> nId \<notin> assigned then [nId] else []) p)"
    by (simp only: set_concat set_map image_image UN_iff)
  then obtain dr dc where d0: "(dr, dc) \<in> set neighbourOffsets"
    "x \<in> set (case gridMap ss (gridKey b (r + dr) (c + dc)) of
                        None \<Rightarrow> []
                      | Some nId \<Rightarrow> if nId \<noteq> [] \<and> nId \<notin> assigned then [nId] else [])"
    by auto
  from d0(2) have "gridMap ss (gridKey b (r + dr) (c + dc)) = Some x \<and> x \<noteq> [] \<and> x \<notin> assigned"
    by (cases "gridMap ss (gridKey b (r + dr) (c + dc))") (simp_all split: if_splits)
  with d0(1) have d: "(dr, dc) \<in> set neighbourOffsets"
    "gridMap ss (gridKey b (r + dr) (c + dc)) = Some x" "x \<noteq> []" "x \<notin> assigned"
    by simp_all
  from d(2) dp obtain n b' r' c' where n: "n \<in> set ss" "blockId n = Some b'" "row n = Some r'"
    "col n = Some c'" "gridKey b (r + dr) (c + dc) = gridKey b' r' c'" "x = seat_id n"
    by (auto simp: gridMap_Some)
  from n(5) have e: "b' = b" "r' = r + dr" "c' = c + dc"
    by (simp_all add: gridKey_eq_iff)
  from d(1) have "\<bar>dr\<bar> \<le> 1 \<and> \<bar>dc\<bar> \<le> 1 \<and> (dr, dc) \<noteq> (0, 0)"
    using neighbourOffsets_iff [of dr dc] by blast
  then have "\<bar>r' - r\<bar> \<le> 1" "\<bar>c' - c\<bar> \<le> 1" "(r', c') \<noteq> (r, c)"
    using e by auto
  with brc n(2-4) e(1) have "adjacentSeats t n"
    by (simp add: adjacentSeats_def)
  with tin n(1,6) d(3,4) show "\<exists>n \<in> set ss. \<exists>t \<in> set ss. seat_id t = soloId \<and> adjacentSeats t n
         \<and> x = seat_id n \<and> x \<noteq> [] \<and> x \<notin> assigned"
    by blast
next
  assume "\<exists>n \<in> set ss. \<exists>t \<in> set ss. seat_id t = soloId \<and> adjacentSeats t n
         \<and> x = seat_id n \<and> x \<noteq> [] \<and> x \<notin> assigned"
  then obtain n t where nt: "n \<in> set ss" "t \<in> set ss" "seat_id t = soloId" "adjacentSeats t n"
    "x = seat_id n" "x \<noteq> []" "x \<notin> assigned"
    by blast
  from nt(2,3) di have sm: "seatMap ss soloId = Some t"
    by (simp add: seatMap_Some)
  from nt(4) obtain b r c r' c' where brc: "blockId t = Some b" "row t = Some r" "col t = Some c"
    "blockId n = Some b" "row n = Some r'" "col n = Some c'"
    "\<bar>r' - r\<bar> \<le> 1" "\<bar>c' - c\<bar> \<le> 1" "(r', c') \<noteq> (r, c)"
    by (auto simp: adjacentSeats_def split: option.splits)
  have off: "(r' - r, c' - c) \<in> set neighbourOffsets"
    using brc(7-9) by (simp only: neighbourOffsets_iff) auto
  have gm: "gridMap ss (gridKey b r' c') = Some x"
    using dp nt(1,5) brc(4-6) by (auto simp: gridMap_Some)
  have "\<exists>p \<in> set neighbourOffsets. x \<in> set ((\<lambda>(dr, dc).
                      case gridMap ss (gridKey b (r + dr) (c + dc)) of
                        None \<Rightarrow> []
                      | Some nId \<Rightarrow> if nId \<noteq> [] \<and> nId \<notin> assigned then [nId] else []) p)"
    using off gm nt(6,7) by (intro bexI [of _ "(r' - r, c' - c)"]) simp_all
  then have "x \<in> set (concat (map (\<lambda>(dr, dc).
                      case gridMap ss (gridKey b (r + dr) (c + dc)) of
                        None \<Rightarrow> []
                      | Some nId \<Rightarrow> if nId \<noteq> [] \<and> nId \<notin> assigned then [nId] else [])
                    neighbourOffsets))"
    by (simp only: set_concat set_map image_image UN_iff)
  with sm brc(1-3) show "x \<in> soloAdjacent ss assigned soloId"
    by (simp add: soloAdjacent_def)
qed

lemma soloAdjacentIds_neighbours:
  assumes "distinct (map seat_id ss)" and "distinctPositions ss"
  shows "soloAdjacentIds ss assigned solo = soloNeighbourIds ss assigned solo"
proof (rule set_eqI)
  fix x
  have "x \<in> soloAdjacentIds ss assigned solo \<longleftrightarrow>
      (\<exists>soloId \<in> solo. x \<in> soloAdjacent ss assigned soloId)"
    by (simp add: soloAdjacentIds_def)
  also have "\<dots> \<longleftrightarrow> (\<exists>soloId \<in> solo. \<exists>n \<in> set ss. \<exists>t \<in> set ss. seat_id t = soloId
         \<and> adjacentSeats t n \<and> x = seat_id n \<and> x \<noteq> [] \<and> x \<notin> assigned)"
    by (simp only: soloAdjacent_iff [OF assms])
  also have "\<dots> \<longleftrightarrow> x \<in> soloNeighbourIds ss assigned solo"
    unfolding soloNeighbourIds_def by auto
  finally show "x \<in> soloAdjacentIds ss assigned solo \<longleftrightarrow> x \<in> soloNeighbourIds ss assigned solo" .
qed

subsection \<open>Group allocator: the chosen candidate\<close>

text \<open>
  Claim C6. When \<^verbatim>\<open>findAndAllocateSeats\<close> succeeds, the seats it returns are those of a
  candidate whose average score after the solo bonus is the highest of all candidates,
  and every candidate enumerated before it scores strictly less: of several candidates
  with the highest average the first in enumeration order is chosen. The candidates are
  contiguous sub-runs of the requested size: each consists of available seats of one block
  and one row with columns increasing by one, has as many seats as the party size and
  carries the mean of their scores; and when no two seats of the pool stand at the same
  position, every such sub-run of the available seats is a candidate. The bonus is added
  for a party of one to the candidates whose seat has an id that is not empty and lies in
  the adjacency set of the seated solo attendees; it is 20 percent of the largest average
  of the candidates, or of \<open>1\<close> if that is larger. When ids and positions are distinct,
  the adjacency set holds the ids of the unassigned seats that are one of the eight
  neighbours of a seat of a seated solo attendee. All this holds for every rounding \<open>fl\<close>
  of the arithmetic. For five contiguous seats of one row with the scores 10, 20, 30, 40,
  50 and a party of three, the seats scored 30, 40, 50 are chosen, whenever the rounding
  is exact on the natural numbers up to 120.
\<close>

theorem findAndAllocateSeats_best_first:
  "(findAndAllocateSeats fl gs ss assigned solo = Inr (Some chosen) \<longrightarrow>
      (\<exists>cands k.
          candidateChunks fl gs (filter (\<lambda>s. seat_id s \<notin> assigned) ss) = Inr cands
          \<and> k < length cands \<and> chosen = seats (cands ! k)
          \<and> (\<forall>j<length cands.
                avgScore (bonusCandidates fl gs ss assigned solo cands ! j)
                  \<le> avgScore (bonusCandidates fl gs ss assigned solo cands ! k))
          \<and> (\<forall>j<k. avgScore (bonusCandidates fl gs ss assigned solo cands ! j)
                  < avgScore (bonusCandidates fl gs ss assigned solo cands ! k))
          \<and> (\<forall>j<length cands.
                set (seats (cands ! j)) \<subseteq> set (filter (\<lambda>s. seat_id s \<notin> assigned) ss)
                \<and> int (length (seats (cands ! j))) = gs
                \<and> contiguousRun (seats (cands ! j))
                \<and> avgScore (cands ! j) = roundedMean fl (seats (cands ! j))
                \<and> avgScore (bonusCandidates fl gs ss assigned solo cands ! j) =
                    (if gs = 1 \<and> (\<exists>S. solo = Some S
                          \<and> seat_id (hd (seats (cands ! j))) \<noteq> []
                          \<and> seat_id (hd (seats (cands ! j))) \<in> soloAdjacentIds ss assigned S)
                     then fl (avgScore (cands ! j)
                              + fl (Max (insert 1 (avgScore ` set cands)) * fl 0.2))
                     else avgScore (cands ! j)))
          \<and> (distinctPositions ss \<longrightarrow>
                (\<forall>xs. set xs \<subseteq> set (filter (\<lambda>s. seat_id s \<notin> assigned) ss)
                      \<and> int (length xs) = gs \<and> contiguousRun xs
                   \<longrightarrow> xs \<in> seats ` set cands))))
   \<and> (distinct (map seat_id ss) \<and> distinctPositions ss \<longrightarrow>
        soloAdjacentIds ss assigned S = soloNeighbourIds ss assigned S)
   \<and> ((\<forall>n\<le>120. fl (real n) = real n) \<longrightarrow>
        findAndAllocateSeats fl 3
          [scoredSeat i0 b r c 10, scoredSeat i1 b r (c + 1) 20, scoredSeat i2 b r (c + 2) 30,
           scoredSeat i3 b r (c + 3) 40, scoredSeat i4 b r (c + 4) 50] {} None
        = Inr (Some [scoredSeat i2 b r (c + 2) 30, scoredSeat i3 b r (c + 3) 40,
                     scoredSeat i4 b r (c + 4) 50]))"
proof (intro conjI impI)
  assume a: "findAndAllocateSeats fl gs ss assigned solo = Inr (Some chosen)"
  let ?av = "filter (\<lambda>s. seat_id s \<notin> assigned) ss"
  from findAndAllocateSeats_Some [OF a] obtain cands
    where c: "candidateChunks fl gs ?av = Inr cands"
      and ne: "cands \<noteq> []"
      and r: "chosen = seats (hd (sort_key (\<lambda>c. - avgScore c)
                                    (bonusCandidates fl gs ss assigned solo cands)))"
    by blast
  let ?cs = "bonusCandidates fl gs ss assigned solo cands"
  from findAndAllocateSeats_seats(2) [OF a] have one: "1 \<le> gs" .
  have len: "length ?cs = length cands"
    by (rule length_bonusCandidates)
  with ne have "?cs \<noteq> []" by auto
  from hd_sort_key_first_min [OF this, of "\<lambda>c. - avgScore c"]
  obtain k where k: "k < length ?cs" "hd (sort_key (\<lambda>c. - avgScore c) ?cs) = ?cs ! k"
    "\<forall>j<length ?cs. - avgScore (?cs ! k) \<le> - avgScore (?cs ! j)"
    "\<forall>j<k. - avgScore (?cs ! k) < - avgScore (?cs ! j)"
    by blast
  from k(1) len have kl: "k < length cands" by simp
  have "seats (?cs ! k) = map seats ?cs ! k"
    using k(1) by simp
  also have "\<dots> = seats (cands ! k)"
    using kl by (simp only: seats_bonusCandidates) simp
  finally have ch: "chosen = seats (cands ! k)"
    using r k(2) by simp
  have best: "\<forall>j<length cands. avgScore (?cs ! j) \<le> avgScore (?cs ! k)"
    using k(3) len by simp
  have first: "\<forall>j<k. avgScore (?cs ! j) < avgScore (?cs ! k)"
    using k(4) by simp
  have each: "\<forall>j<length cands.
                set (seats (cands ! j)) \<subseteq> set ?av
                \<and> int (length (seats (cands ! j))) = gs
                \<and> contiguousRun (seats (cands ! j))
                \<and> avgScore (cands ! j) = roundedMean fl (seats (cands ! j))
                \<and> avgScore (?cs ! j) =
                    (if gs = 1 \<and> (\<exists>S. solo = Some S
                          \<and> seat_id (hd (seats (cands ! j))) \<noteq> []
                          \<and> seat_id (hd (seats (cands ! j))) \<in> soloAdjacentIds ss assigned S)
                     then fl (avgScore (cands ! j)
                              + fl (Max (insert 1 (avgScore ` set cands)) * fl 0.2))
                     else avgScore (cands ! j))"
  proof (intro allI impI)
    fix j assume j: "j < length cands"
    then have m: "cands ! j \<in> set cands" by simp
    from candidateChunks_seats(3) [OF c m] one have "seats (cands ! j) \<noteq> []" by auto
    from avgScore_bonusCandidates [OF j this, of fl gs ss assigned solo]
      candidateChunks_seats(2,3) [OF c m] candidateChunks_sound [OF c m]
    show "set (seats (cands ! j)) \<subseteq> set ?av
                \<and> int (length (seats (cands ! j))) = gs
                \<and> contiguousRun (seats (cands ! j))
                \<and> avgScore (cands ! j) = roundedMean fl (seats (cands ! j))
                \<and> avgScore (?cs ! j) =
                    (if gs = 1 \<and> (\<exists>S. solo = Some S
                          \<and> seat_id (hd (seats (cands ! j))) \<noteq> []
                          \<and> seat_id (hd (seats (cands ! j))) \<in> soloAdjacentIds ss assigned S)
                     then fl (avgScore (cands ! j)
                              + fl (Max (insert 1 (avgScore ` set cands)) * fl 0.2))
                     else avgScore (cands ! j))"
      by blast
  qed
  have all: "distinctPositions ss \<longrightarrow>
                (\<forall>xs. set xs \<subseteq> set ?av \<and> int (length xs) = gs \<and> contiguousRun xs
                   \<longrightarrow> xs \<in> seats ` set cands)"
  proof (intro impI allI)
    fix xs
    assume dp: "distinctPositions ss"
      and xs: "set xs \<subseteq> set ?av \<and> int (length xs) = gs \<and> contiguousRun xs"
    from dp have "distinctPositions ?av" by (rule distinctPositions_filter)
    from candidateChunks_complete [OF this c one] xs
    show "xs \<in> seats ` set cands" by blast
  qed
  from c kl ch best first each all
  show "\<exists>cands k.
          candidateChunks fl gs (filter (\<lambda>s. seat_id s \<notin> assigned) ss) = Inr cands
          \<and> k < length cands \<and> chosen = seats (cands ! k)
          \<and> (\<forall>j<length cands.
                avgScore (bonusCandidates fl gs ss assigned solo cands ! j)
                  \<le> avgScore (bonusCandidates fl gs ss assigned solo cands ! k))
          \<and> (\<forall>j<k. avgScore (bonusCandidates fl gs ss assigned solo cands ! j)
                  < avgScore (bonusCandidates fl gs ss assigned solo cands ! k))
          \<and> (\<forall>j<length cands.
                set (seats (cands ! j)) \<subseteq> set (filter (\<lambda>s. seat_id s \<notin> assigned) ss)
                \<and> int (length (seats (cands ! j))) = gs
                \<and> contiguousRun (seats (cands ! j))
                \<and> avgScore (cands ! j) = roundedMean fl (seats (cands ! j))
                \<and> avgScore (bonusCandidates fl gs ss assigned solo cands ! j) =
                    (if gs = 1 \<and> (\<exists>S. solo = Some S
                          \<and> seat_id (hd (seats (cands ! j))) \<noteq> []
                          \<and> seat_id (hd (seats (cands ! j))) \<in> soloAdjacentIds ss assigned S)
                     then fl (avgScore (cands ! j)
                              + fl (Max (insert 1 (avgScore ` set cands)) * fl 0.2))
                     else avgScore (cands ! j)))
          \<and> (distinctPositions ss \<longrightarrow>
                (\<forall>xs. set xs \<subseteq> set (filter (\<lambda>s. seat_id s \<notin> assigned) ss)
                      \<and> int (length xs) = gs \<and> contiguousRun xs
                   \<longrightarrow> xs \<in> seats ` set cands))"
    by (intro exI [of _ cands] exI [of _ k] conjI)
next
  assume "distinct (map seat_id ss) \<and> distinctPositions ss"
  then show "soloAdjacentIds ss assigned S = soloNeighbourIds ss assigned S"
    by (intro soloAdjacentIds_neighbours) simp_all
next
  assume "\<forall>n\<le>120. fl (real n) = real n"
  then show "findAndAllocateSeats fl 3
          [scoredSeat i0 b r c 10, scoredSeat i1 b r (c + 1) 20, scoredSeat i2 b r (c + 2) 30,
           scoredSeat i3 b r (c + 3) 40, scoredSeat i4 b r (c + 4) 50] {} None
        = Inr (Some [scoredSeat i2 b r (c + 2) 30, scoredSeat i3 b r (c + 3) 40,
                     scoredSeat i4 b r (c + 4) 50])"
    by (rule scenarioA_rounded)
qed

text \<open>The definitions that a concrete call of the allocator unfolds.\<close>

lemmas alloc_defs =
  findAndAllocateSeats_def candidateChunks_def bonusCandidates_def buildAllChunks_def
  grouped_def chunkKey_def show_int_def show_nat.simps colOr0_def scanRow_unfold js_slice_def
  getSubChunks_def mkChunk_def applySoloBonus_def soloAdjacentIds_def soloAdjacent_def
  seatMap_def gridMap_def gridKey_def neighbourOffsets_def upto.simps Let_def

theorem findAndAllocateSeats_best_first_witness:
  "findAndAllocateSeats id 1
     [scoredSeat ''a'' ''A'' 0 0 50, scoredSeat ''b'' ''A'' 0 1 14, scoredSeat ''c'' ''A'' 0 3 15]
     {''a''} (Some {''a''})
   = Inr (Some [scoredSeat ''b'' ''A'' 0 1 14])
   \<and> findAndAllocateSeats id 1
     [scoredSeat ''a'' ''A'' 0 0 50, scoredSeat ''b'' ''A'' 0 1 14, scoredSeat ''c'' ''A'' 0 3 15]
     {''a''} None
   = Inr (Some [scoredSeat ''c'' ''A'' 0 3 15])
   \<and> distinct (map seat_id
       [scoredSeat ''a'' ''A'' 0 0 50, scoredSeat ''b'' ''A'' 0 1 14, scoredSeat ''c'' ''A'' 0 3 15])
   \<and> distinctPositions
       [scoredSeat ''a'' ''A'' 0 0 50, scoredSeat ''b'' ''A'' 0 1 14, scoredSeat ''c'' ''A'' 0 3 15]
   \<and> soloNeighbourIds
       [scoredSeat ''a'' ''A'' 0 0 50, scoredSeat ''b'' ''A'' 0 1 14, scoredSeat ''c'' ''A'' 0 3 15]
       {''a''} {''a''} = {''b''}
   \<and> (\<exists>cands k.
          candidateChunks id 1
            [scoredSeat ''b'' ''A'' 0 1 14, scoredSeat ''c'' ''A'' 0 3 15] = Inr cands
          \<and> k < length cands \<and> seats (cands ! k) = [scoredSeat ''b'' ''A'' 0 1 14]
          \<and> [scoredSeat ''c'' ''A'' 0 3 15] \<in> seats ` set cands
          \<and> contiguousRun (seats (cands ! k))
          \<and> avgScore (cands ! k) = roundedMean id [scoredSeat ''b'' ''A'' 0 1 14]
          \<and> avgScore (bonusCandidates id 1
                 [scoredSeat ''a'' ''A'' 0 0 50, scoredSeat ''b'' ''A'' 0 1 14,
                  scoredSeat ''c'' ''A'' 0 3 15] {''a''} (Some {''a''}) cands ! k)
              = avgScore (cands ! k) + Max (insert 1 (avgScore ` set cands)) * 0.2)
   \<and> findAndAllocateSeats id 3
       [scoredSeat ''a'' ''A'' 0 0 10, scoredSeat ''b'' ''A'' 0 1 20, scoredSeat ''c'' ''A'' 0 2 30,
        scoredSeat ''d'' ''A'' 0 3 40, scoredSeat ''e'' ''A'' 0 4 50] {} None
     = Inr (Some [scoredSeat ''c'' ''A'' 0 2 30, scoredSeat ''d'' ''A'' 0 3 40,
                  scoredSeat ''e'' ''A'' 0 4 50])"
proof -
  let ?ss = "[scoredSeat ''a'' ''A'' 0 0 50, scoredSeat ''b'' ''A'' 0 1 14,
              scoredSeat ''c'' ''A'' 0 3 15]"
  let ?b = "scoredSeat ''b'' ''A'' 0 1 14"
  let ?c = "scoredSeat ''c'' ''A'' 0 3 15"
  note t = findAndAllocateSeats_best_first
    [where fl = id and gs = 1 and ss = ?ss and assigned = "{''a''}" and solo = "Some {''a''}"
       and chosen = "[?b]" and S = "{''a''}"
       and ?i0.0 = "''a''" and ?i1.0 = "''b''" and ?i2.0 = "''c''" and ?i3.0 = "''d''"
       and ?i4.0 = "''e''" and b = "''A''" and r = 0 and c = 0]
  have h1: "findAndAllocateSeats id 1 ?ss {''a''} (Some {''a''}) = Inr (Some [?b])"
    by (simp add: alloc_defs scoredSeat_def)
  have h1': "findAndAllocateSeats id 1 ?ss {''a''} None = Inr (Some [?c])"
    by (simp add: alloc_defs scoredSeat_def)
  have h2: "distinct (map seat_id ?ss)"
    by (simp add: scoredSeat_def)
  have h3: "distinctPositions ?ss"
    by (simp add: distinctPositions_def blockOf_def rowOf_def colOr0_def scoredSeat_def)
  have h4: "\<forall>n\<le>120. id (real n) = real n"
    by simp
  have av: "filter (\<lambda>s. seat_id s \<notin> {''a''}) ?ss = [?b, ?c]"
    by (simp add: scoredSeat_def)
  have adj: "soloAdjacentIds ?ss {''a''} {''a''} = {''b''}"
    by (simp add: alloc_defs scoredSeat_def)
  have run: "contiguousRun [?c]"
    by (simp add: contiguousRun_def consecutiveCols_def)
  from t [THEN conjunct1, THEN mp, OF h1, unfolded av] obtain cands k
    where c: "candidateChunks id 1 [?b, ?c] = Inr cands"
      and k: "k < length cands" "[?b] = seats (cands ! k)"
      and each: "\<forall>j<length cands.
                set (seats (cands ! j)) \<subseteq> set [?b, ?c]
                \<and> int (length (seats (cands ! j))) = 1
                \<and> contiguousRun (seats (cands ! j))
                \<and> avgScore (cands ! j) = roundedMean id (seats (cands ! j))
                \<and> avgScore (bonusCandidates id 1 ?ss {''a''} (Some {''a''}) cands ! j) =
                    (if 1 = (1::int) \<and> (\<exists>S. Some {''a''} = Some S
                          \<and> seat_id (hd (seats (cands ! j))) \<noteq> []
                          \<and> seat_id (hd (seats (cands ! j))) \<in> soloAdjacentIds ?ss {''a''} S)
                     then id (avgScore (cands ! j)
                              + id (Max (insert 1 (avgScore ` set cands)) * id 0.2))
                     else avgScore (cands ! j))"
      and all: "distinctPositions ?ss \<longrightarrow>
                (\<forall>xs. set xs \<subseteq> set [?b, ?c] \<and> int (length xs) = 1 \<and> contiguousRun xs
                   \<longrightarrow> xs \<in> seats ` set cands)"
    by blast
  from all h3 run have m: "[?c] \<in> seats ` set cands"
    by simp
  from each k(1) have ek: "contiguousRun (seats (cands ! k))"
    "avgScore (cands ! k) = roundedMean id (seats (cands ! k))"
    "avgScore (bonusCandidates id 1 ?ss {''a''} (Some {''a''}) cands ! k) =
                    (if 1 = (1::int) \<and> (\<exists>S. Some {''a''} = Some S
                          \<and> seat_id (hd (seats (cands ! k))) \<noteq> []
                          \<and> seat_id (hd (seats (cands ! k))) \<in> soloAdjacentIds ?ss {''a''} S)
                     then id (avgScore (cands ! k)
                              + id (Max (insert 1 (avgScore ` set cands)) * id 0.2))
                     else avgScore (cands ! k))"
    by blast+
  have sk: "seats (cands ! k) = [?b]"
    using k(2) by simp
  have idb: "seat_id (hd (seats (cands ! k))) = ''b''"
    unfolding sk by (simp add: scoredSeat_def)
  have bonus: "avgScore (bonusCandidates id 1 ?ss {''a''} (Some {''a''}) cands ! k)
      = avgScore (cands ! k) + Max (insert 1 (avgScore ` set cands)) * 0.2"
    unfolding ek(3) idb using adj by simp
  have mean: "avgScore (cands ! k) = roundedMean id [?b]"
    using ek(2) unfolding sk .
  from c k(1) sk m ek(1) mean bonus
  have c1: "\<exists>cands k.
          candidateChunks id 1 [?b, ?c] = Inr cands
          \<and> k < length cands \<and> seats (cands ! k) = [?b]
          \<and> [?c] \<in> seats ` set cands
          \<and> contiguousRun (seats (cands ! k))
          \<and> avgScore (cands ! k) = roundedMean id [?b]
          \<and> avgScore (bonusCandidates id 1 ?ss {''a''} (Some {''a''}) cands ! k)
              = avgScore (cands ! k) + Max (insert 1 (avgScore ` set cands)) * 0.2"
    by (intro exI [of _ cands] exI [of _ k] conjI)
  from t [THEN conjunct2, THEN conjunct1, THEN mp, OF conjI [OF h2 h3]] adj
  have c2: "soloNeighbourIds ?ss {''a''} {''a''} = {''b''}"
    by simp
  from t [THEN conjunct2, THEN conjunct2, THEN mp, OF h4]
  have c3: "findAndAllocateSeats id 3
       [scoredSeat ''a'' ''A'' 0 0 10, scoredSeat ''b'' ''A'' 0 1 20, scoredSeat ''c'' ''A'' 0 2 30,
        scoredSeat ''d'' ''A'' 0 3 40, scoredSeat ''e'' ''A'' 0 4 50] {} None
     = Inr (Some [scoredSeat ''c'' ''A'' 0 2 30, scoredSeat ''d'' ''A'' 0 3 40,
                  scoredSeat ''e'' ''A'' 0 4 50])"
    by simp
  from h1 h1' h2 h3 c2 c1 c3 show ?thesis
    by (intro conjI)
qed

subsection \<open>The invariant of the tier loops\<close>

lemma disjointLists_snoc:
  assumes "disjointLists xss" "\<forall>xs \<in> set xss. set xs \<inter> set ys = {}"
  shows "disjointLists (xss @ [ys])"
  unfolding disjointLists_def
proof (intro allI impI)
  fix i j assume ij: "i < j \<and> j < length (xss @ [ys])"
  show "set ((xss @ [ys]) ! i) \<inter> set ((xss @ [ys]) ! j) = {}"
  proof (cases "j < length xss")
    case True
    with ij assms(1) show ?thesis
      by (simp add: disjointLists_def nth_append)
  next
    case False
    with ij have j: "j = length xss" and i: "i < length xss" by simp_all
    from i have "xss ! i \<in> set xss" by simp
    with assms(2) j i show ?thesis
      by (simp add: nth_append)
  qed
qed

lemma allocateApp_seated:
  assumes "allocateApp ss app t st = Inr (True, st')"
  shows "\<exists>allocated. findAndAllocateSeats id (groupSize app) ss (st_assignedSeatIds st)
         (if groupSize app = 1 then Some (st_soloSeatIds st) else None) = Inr (Some allocated)
      \<and> st_assignedSeatIds st' = st_assignedSeatIds st \<union> set (map seat_id allocated)
      \<and> st_assignments st' = st_assignments st @
            [\<lparr> applicationId = app_id app, seatIds = map seat_id allocated,
               totalScore = sum_list (map score allocated) / real (length allocated),
               tier = t, seatQuality = None \<rparr>]
      \<and> st_unassigned st' = st_unassigned st
      \<and> st_tier2OverflowCount st' = st_tier2OverflowCount st
      \<and> st_attempts st' = st_attempts st @ [(app, t)]"
  using assms by (auto simp: allocateApp_def split: sum.splits option.splits)

lemma allocateApp_unseated:
  assumes "allocateApp ss app t st = Inr (False, st')"
  shows "st' = st\<lparr> st_attempts := st_attempts st @ [(app, t)] \<rparr>"
  using assms by (auto simp: allocateApp_def split: sum.splits option.splits)

lemma allocateApp_attempts:
  "allocateApp ss app t st = Inr (ok, st') \<Longrightarrow> st_attempts st' = st_attempts st @ [(app, t)]"
  using allocateApp_seated [of ss app t st st'] allocateApp_unseated [of ss app t st st']
  by (cases ok) auto

lemma goodState_seated:
  assumes g: "goodState st" and ok: "allocateApp ss app t st = Inr (True, st')"
  shows "goodState st'"
proof -
  from allocateApp_seated [OF ok] obtain allocated
    where f: "findAndAllocateSeats id (groupSize app) ss (st_assignedSeatIds st)
         (if groupSize app = 1 then Some (st_soloSeatIds st) else None) = Inr (Some allocated)"
      and ids: "st_assignedSeatIds st' = st_assignedSeatIds st \<union> set (map seat_id allocated)"
      and asg: "st_assignments st' = st_assignments st @
            [\<lparr> applicationId = app_id app, seatIds = map seat_id allocated,
               totalScore = sum_list (map score allocated) / real (length allocated),
               tier = t, seatQuality = None \<rparr>]"
      and un: "st_unassigned st' = st_unassigned st"
      and att: "st_attempts st' = st_attempts st @ [(app, t)]"
    by blast
  let ?new = "\<lparr> applicationId = app_id app, seatIds = map seat_id allocated,
               totalScore = sum_list (map score allocated) / real (length allocated),
               tier = t, seatQuality = None \<rparr>"
  have fresh: "seat_id ` set allocated \<inter> st_assignedSeatIds st = {}"
    by (rule findAndAllocateSeats_seats(1) [OF f])
  have new: "seatedAs app ?new"
    using findAndAllocateSeats_seats(3) [OF f] by (simp add: seatedAs_def)
  have 1: "\<forall>a \<in> set (st_assignments st'). set (seatIds a) \<subseteq> st_assignedSeatIds st'"
    using g unfolding asg ids goodState_def by auto
  have "\<forall>xs \<in> set (map seatIds (st_assignments st)). set xs \<inter> set (map seat_id allocated) = {}"
    using g fresh unfolding goodState_def by fastforce
  with g have 2: "disjointLists (map seatIds (st_assignments st'))"
    unfolding asg goodState_def by (simp add: disjointLists_snoc)
  have 3: "\<forall>(app, t) \<in> set (st_attempts st').
      (\<exists>a \<in> set (st_assignments st'). seatedAs app a) \<or> app_id app \<in> set (st_unassigned st')"
    using g new unfolding asg att un goodState_def by fastforce
  have 4: "\<forall>a \<in> set (st_assignments st'). \<exists>(app, t) \<in> set (st_attempts st'). seatedAs app a"
    using g new unfolding asg att goodState_def by fastforce
  from 1 2 3 4 show ?thesis
    unfolding goodState_def by blast
qed

lemma goodState_unseated:
  assumes g: "goodState st" and no: "allocateApp ss app t st = Inr (False, st')"
    and a: "st_assignments st2 = st_assignments st'"
    and i: "st_assignedSeatIds st2 = st_assignedSeatIds st'"
    and u: "st_unassigned st2 = st_unassigned st' @ [app_id app]"
    and l: "st_attempts st2 = st_attempts st'"
  shows "goodState st2"
proof -
  note s = allocateApp_unseated [OF no]
  have a': "st_assignments st2 = st_assignments st"
    and i': "st_assignedSeatIds st2 = st_assignedSeatIds st"
    and u': "st_unassigned st2 = st_unassigned st @ [app_id app]"
    and l': "st_attempts st2 = st_attempts st @ [(app, t)]"
    using a i u l unfolding s by simp_all
  have 3: "\<forall>(app, t) \<in> set (st_attempts st2).
      (\<exists>a \<in> set (st_assignments st2). seatedAs app a) \<or> app_id app \<in> set (st_unassigned st2)"
    using g unfolding a' l' u' goodState_def by fastforce
  have 4: "\<forall>a \<in> set (st_assignments st2). \<exists>(app, t) \<in> set (st_attempts st2). seatedAs app a"
    using g unfolding a' l' goodState_def by fastforce
  from g 3 4 show ?thesis
    unfolding goodState_def a' i' by blast
qed

lemma loopStep_good: "goodState st \<Longrightarrow> loopStep ss app t st st2 \<Longrightarrow> goodState st2"
  unfolding loopStep_def using goodState_seated goodState_unseated by blast

lemma loopStep_attempts:
  "loopStep ss app t st st2 \<Longrightarrow> st_attempts st2 = st_attempts st @ [(app, t)]"
  unfolding loopStep_def using allocateApp_attempts by metis

lemma tier1Loop_step:
  assumes "tier1Loop ss (app # rest) st = Inr st'"
  shows "\<exists>st2. loopStep ss app 1 st st2 \<and> tier1Loop ss rest st2 = Inr st'"
proof -
  from assms obtain ok st1 where r: "allocateApp ss app 1 st = Inr (ok, st1)"
    by (auto split: sum.splits)
  show ?thesis
  proof (cases ok)
    case True
    with assms r show ?thesis
      by (intro exI [of _ st1]) (simp add: loopStep_def)
  next
    case False
    with assms r show ?thesis
      by (intro exI [of _ "st1\<lparr> st_unassigned := st_unassigned st1 @ [app_id app] \<rparr>"])
         (simp add: loopStep_def)
  qed
qed

lemma tier2Loop_step:
  assumes "tier2Loop ss (app # rest) st = Inr st'"
  shows "\<exists>st2. loopStep ss app 2 st st2 \<and> tier2Loop ss rest st2 = Inr st'"
proof -
  from assms obtain ok st1 where r: "allocateApp ss app 2 st = Inr (ok, st1)"
    by (auto split: sum.splits)
  show ?thesis
  proof (cases ok)
    case True
    with assms r show ?thesis
      by (intro exI [of _ st1]) (simp add: loopStep_def)
  next
    case False
    with assms r show ?thesis
      by (intro exI [of _ "st1\<lparr> st_unassigned := st_unassigned st1 @ [app_id app],
            st_tier2OverflowCount := st_tier2OverflowCount st1 + 1 \<rparr>"])
         (simp add: loopStep_def)
  qed
qed

lemma tier3Loop_step:
  assumes "tier3Loop ss (x # rest) st = Inr st'"
  shows "\<exists>app st2. x = Some app \<and> loopStep ss app 3 st st2 \<and> tier3Loop ss rest st2 = Inr st'"
proof -
  from assms obtain app where x: "x = Some app"
    by (cases x) simp_all
  with assms obtain ok st1 where r: "allocateApp ss app 3 st = Inr (ok, st1)"
    by (auto split: sum.splits)
  show ?thesis
  proof (cases ok)
    case True
    with assms r x show ?thesis
      by (intro exI [of _ app] exI [of _ st1]) (simp add: loopStep_def)
  next
    case False
    with assms r x show ?thesis
      by (intro exI [of _ app]
            exI [of _ "st1\<lparr> st_unassigned := st_unassigned st1 @ [app_id app] \<rparr>"])
         (simp add: loopStep_def)
  qed
qed

lemma tier1Loop_good:
  "goodState st \<Longrightarrow> tier1Loop ss apps st = Inr st'
   \<Longrightarrow> goodState st' \<and> st_attempts st' = st_attempts st @ map (\<lambda>a. (a, 1)) apps"
proof (induction apps arbitrary: st)
  case Nil
  then show ?case by simp
next
  case (Cons app rest)
  from tier1Loop_step [OF Cons.prems(2)] obtain st2
    where s: "loopStep ss app 1 st st2" "tier1Loop ss rest st2 = Inr st'"
    by blast
  from Cons.IH [OF loopStep_good [OF Cons.prems(1) s(1)] s(2)] loopStep_attempts [OF s(1)]
  show ?case by simp
qed

lemma tier2Loop_good:
  "goodState st \<Longrightarrow> tier2Loop ss apps st = Inr st'
   \<Longrightarrow> goodState st' \<and> st_attempts st' = st_attempts st @ map (\<lambda>a. (a, 2)) apps"
proof (induction apps arbitrary: st)
  case Nil
  then show ?case by simp
next
  case (Cons app rest)
  from tier2Loop_step [OF Cons.prems(2)] obtain st2
    where s: "loopStep ss app 2 st st2" "tier2Loop ss rest st2 = Inr st'"
    by blast
  from Cons.IH [OF loopStep_good [OF Cons.prems(1) s(1)] s(2)] loopStep_attempts [OF s(1)]
  show ?case by simp
qed

lemma tier3Loop_good:
  "goodState st \<Longrightarrow> tier3Loop ss sel st = Inr st'
   \<Longrightarrow> goodState st' \<and> None \<notin> set sel
       \<and> st_attempts st' = st_attempts st @ map (\<lambda>a. (the a, 3)) sel"
proof (induction sel arbitrary: st)
  case Nil
  then show ?case by simp
next
  case (Cons x rest)
  from tier3Loop_step [OF Cons.prems(2)] obtain app st2
    where s: "x = Some app" "loopStep ss app 3 st st2" "tier3Loop ss rest st2 = Inr st'"
    by blast
  from Cons.IH [OF loopStep_good [OF Cons.prems(1) s(2)] s(3)] loopStep_attempts [OF s(2)] s(1)
  show ?case by simp
qed

subsection \<open>Tier classifier and hybrid selector\<close>

lemma classify_filter:
  "classify apps (t1, t2, t3) =
     (t1 @ filter (\<lambda>a. tierOf a = 1) apps, t2 @ filter (\<lambda>a. tierOf a = 2) apps,
      t3 @ filter (\<lambda>a. tierOf a = 3) apps)"
  by (induction apps arbitrary: t1 t2 t3) (simp_all add: tierOf_def)

lemma fisherYates_mset:
  "i < length xs \<or> i = 0 \<Longrightarrow> fisherYates rnd k i xs = Inr (ys, k') \<Longrightarrow> mset ys = mset xs"
proof (induction i arbitrary: xs k)
  case 0
  then show ?case by simp
next
  case (Suc i)
  let ?j = "\<lfloor>rnd k * real (Suc i + 1)\<rfloor>"
  from Suc.prems(2) have j: "0 \<le> ?j" "?j < int (length xs)"
    by (auto simp: Let_def split: if_splits)
  let ?xs' = "xs[Suc i := xs ! nat ?j, nat ?j := xs ! Suc i]"
  from Suc.prems(2) j have r: "fisherYates rnd (k + 1) i ?xs' = Inr (ys, k')"
    by (simp add: Let_def)
  from Suc.prems(1) have si: "Suc i < length xs" by simp
  from j have nj: "nat ?j < length xs" by linarith
  have "mset ys = mset ?xs'"
    using si by (intro Suc.IH [OF _ r]) simp
  also have "\<dots> = mset xs"
    using nj si by (rule mset_swap)
  finally show ?case .
qed

lemma hybridLoop_unfold:
  "hybridLoop w rnd k remaining selected =
     (if remaining = [] then (selected, k)
      else if rnd k < w
        then hybridLoop w rnd (k + 1) (tl remaining) (selected @ [Some (hd remaining)])
      else if 0 \<le> \<lfloor>rnd (k + 1) * real (length remaining)\<rfloor>
              \<and> \<lfloor>rnd (k + 1) * real (length remaining)\<rfloor> < int (length remaining)
        then hybridLoop w rnd (k + 2)
               (take (nat \<lfloor>rnd (k + 1) * real (length remaining)\<rfloor>) remaining
                  @ drop (Suc (nat \<lfloor>rnd (k + 1) * real (length remaining)\<rfloor>)) remaining)
               (selected @ [Some (remaining ! nat \<lfloor>rnd (k + 1) * real (length remaining)\<rfloor>)])
      else hybridLoop w rnd (k + 2) (butlast remaining) (selected @ [None]))"
  by (subst hybridLoop.simps) (simp add: Let_def)

lemma mset_remove_nth:
  "n < length xs \<Longrightarrow> mset (take n xs @ drop (Suc n) xs) + {#xs ! n#} = mset xs"
proof -
  assume "n < length xs"
  then have "xs = take n xs @ xs ! n # drop (Suc n) xs"
    by (rule id_take_nth_drop)
  then have "mset xs = mset (take n xs @ xs ! n # drop (Suc n) xs)"
    by simp
  then show ?thesis by simp
qed

lemma hybridLoop_selects:
  "\<exists>more. fst (hybridLoop w rnd k remaining selected) = selected @ more
     \<and> (None \<notin> set more \<longrightarrow> mset (map the more) = mset remaining)"
proof (induction w rnd k remaining selected rule: hybridLoop.induct)
  case (1 w rnd k remaining selected)
  let ?x = "\<lfloor>rnd (k + 1) * real (length remaining)\<rfloor>"
  show ?case
  proof (cases "remaining = []")
    case True
    then show ?thesis
      by (subst hybridLoop_unfold) simp
  next
    case ne: False
    show ?thesis
    proof (cases "rnd k < w")
      case True
      from "1.IH"(1) [OF ne True] obtain more
        where m: "fst (hybridLoop w rnd (k + 1) (tl remaining) (selected @ [Some (hd remaining)]))
            = (selected @ [Some (hd remaining)]) @ more"
          "None \<notin> set more \<longrightarrow> mset (map the more) = mset (tl remaining)"
        by blast
      have "mset (tl remaining) + {#hd remaining#} = mset remaining"
        using ne by (cases remaining) simp_all
      with m have "fst (hybridLoop w rnd k remaining selected) = selected @ (Some (hd remaining) # more)
          \<and> (None \<notin> set (Some (hd remaining) # more)
              \<longrightarrow> mset (map the (Some (hd remaining) # more)) = mset remaining)"
        using ne True by (subst hybridLoop_unfold) auto
      then show ?thesis by blast
    next
      case luck: False
      show ?thesis
      proof (cases "0 \<le> ?x \<and> ?x < int (length remaining)")
        case True
        from "1.IH"(2) [OF ne luck refl True] obtain more
          where m: "fst (hybridLoop w rnd (k + 2)
                (take (nat ?x) remaining @ drop (Suc (nat ?x)) remaining)
                (selected @ [Some (remaining ! nat ?x)]))
              = (selected @ [Some (remaining ! nat ?x)]) @ more"
            "None \<notin> set more \<longrightarrow> mset (map the more)
              = mset (take (nat ?x) remaining @ drop (Suc (nat ?x)) remaining)"
          by blast
        from True have "nat ?x < length remaining" by linarith
        from mset_remove_nth [OF this] m
        have "fst (hybridLoop w rnd k remaining selected)
              = selected @ (Some (remaining ! nat ?x) # more)
          \<and> (None \<notin> set (Some (remaining ! nat ?x) # more)
              \<longrightarrow> mset (map the (Some (remaining ! nat ?x) # more)) = mset remaining)"
          using ne luck True by (subst hybridLoop_unfold) auto
        then show ?thesis by blast
      next
        case False
        from "1.IH"(3) [OF ne luck refl False] obtain more
          where m: "fst (hybridLoop w rnd (k + 2) (butlast remaining) (selected @ [None]))
              = (selected @ [None]) @ more"
          by blast
        then have "fst (hybridLoop w rnd k remaining selected) = selected @ (None # more)
          \<and> (None \<notin> set (None # more)
              \<longrightarrow> mset (map the (None # more)) = mset remaining)"
          using ne luck False by (subst hybridLoop_unfold) auto
        then show ?thesis by blast
      qed
    qed
  qed
qed

lemma hybridSelection_mset:
  assumes "None \<notin> set (fst (hybridSelection candidates w rnd k))"
  shows "mset (map the (fst (hybridSelection candidates w rnd k))) = mset candidates"
proof -
  from hybridLoop_selects [of w rnd k "sort_key (\<lambda>a. - pastScore a) candidates" "[]"]
  obtain more where "fst (hybridSelection candidates w rnd k) = more"
    "None \<notin> set more \<longrightarrow> mset (map the more) = mset (sort_key (\<lambda>a. - pastScore a) candidates)"
    by (auto simp: hybridSelection_def)
  with assms show ?thesis by simp
qed

subsection \<open>Quality rater\<close>

lemma map_fold_update:
  assumes "\<And>r x. f (g r x) = f x"
  shows "map f (fold (\<lambda>(r, (i, a)) acc. acc[i := g r (acc ! i)]) xs asgs) = map f asgs"
proof (induction xs arbitrary: asgs)
  case Nil
  then show ?case by simp
next
  case (Cons x xs)
  obtain r i a where x: "x = (r, (i, a))" by (cases x) auto
  have "map f (asgs[i := g r (asgs ! i)]) = map f asgs"
  proof (cases "i < length asgs")
    case True
    then show ?thesis
      by (simp add: map_update assms list_update_same_conv)
  next
    case False
    then have "asgs[i := g r (asgs ! i)] = asgs"
      by (intro list_update_beyond) simp
    then show ?thesis by simp
  qed
  with Cons.IH [of "asgs[i := g r (asgs ! i)]"] x show ?case by simp
qed

lemma assignSeatQuality_map:
  assumes "\<And>q x. f (x\<lparr> seatQuality := q \<rparr>) = f x"
  shows "map f (assignSeatQuality asgs) = map f asgs"
  unfolding assignSeatQuality_def Let_def
  using map_fold_update [of f "\<lambda>r x. x\<lparr> seatQuality := Some (qualityOfRank r _) \<rparr>"] assms
  by simp

subsection \<open>Main lottery function\<close>

lemma goodState_init: "goodState initState"
  by (simp add: goodState_def initState_def disjointLists_def)

lemma mset_tiers:
  "mset (filter (\<lambda>a. tierOf a = 1) apps) + mset (filter (\<lambda>a. tierOf a = 2) apps)
     + mset (filter (\<lambda>a. tierOf a = 3) apps) = mset apps"
  by (induction apps) (auto simp: tierOf_def)

lemma runAllocation_cases:
  assumes "runAllocation ss apps w rnd = Inr st"
  shows "\<exists>t1 k st1 st2.
          fisherYates rnd 0 (length (filter (\<lambda>a. tierOf a = 1) apps) - 1)
            (filter (\<lambda>a. tierOf a = 1) apps) = Inr (t1, k)
          \<and> tier1Loop ss t1 initState = Inr st1
          \<and> tier2Loop ss (sort_key (\<lambda>a. - pastScore a) (filter (\<lambda>a. tierOf a = 2) apps)) st1
              = Inr st2
          \<and> tier3Loop ss (fst (hybridSelection (filter (\<lambda>a. tierOf a = 3) apps) w rnd k)) st2
              = Inr st"
  using assms
  by (auto simp: runAllocation_def classify_filter split: sum.splits)

lemma runAllocation_good:
  assumes "runAllocation ss apps w rnd = Inr st"
  shows "goodState st"
proof -
  from runAllocation_cases [OF assms] obtain t1 k st1 st2
    where l: "tier1Loop ss t1 initState = Inr st1"
      "tier2Loop ss (sort_key (\<lambda>a. - pastScore a) (filter (\<lambda>a. tierOf a = 2) apps)) st1 = Inr st2"
      "tier3Loop ss (fst (hybridSelection (filter (\<lambda>a. tierOf a = 3) apps) w rnd k)) st2 = Inr st"
    by blast
  from tier1Loop_good [OF goodState_init l(1)] have "goodState st1" by simp
  from tier2Loop_good [OF this l(2)] have "goodState st2" by simp
  from tier3Loop_good [OF this l(3)] show ?thesis by simp
qed

lemma runAllocation_attempts:
  assumes "runAllocation ss apps w rnd = Inr st"
  shows "\<exists>t1 t2 t3.
      st_attempts st = map (\<lambda>a. (a, 1)) t1 @ map (\<lambda>a. (a, 2)) t2 @ map (\<lambda>a. (a, 3)) t3
      \<and> mset t1 = mset (filter (\<lambda>a. tierOf a = 1) apps)
      \<and> mset t2 = mset (filter (\<lambda>a. tierOf a = 2) apps)
      \<and> mset t3 = mset (filter (\<lambda>a. tierOf a = 3) apps)"
proof -
  let ?f1 = "filter (\<lambda>a. tierOf a = 1) apps"
  let ?t2 = "sort_key (\<lambda>a. - pastScore a) (filter (\<lambda>a. tierOf a = 2) apps)"
  from runAllocation_cases [OF assms] obtain t1 k st1 st2
    where fy: "fisherYates rnd 0 (length ?f1 - 1) ?f1 = Inr (t1, k)"
      and l1: "tier1Loop ss t1 initState = Inr st1"
      and l2: "tier2Loop ss ?t2 st1 = Inr st2"
      and l3: "tier3Loop ss (fst (hybridSelection (filter (\<lambda>a. tierOf a = 3) apps) w rnd k)) st2
          = Inr st"
    by blast
  let ?sel = "fst (hybridSelection (filter (\<lambda>a. tierOf a = 3) apps) w rnd k)"
  have m1: "mset t1 = mset ?f1"
  proof (rule fisherYates_mset [OF _ fy])
    show "length ?f1 - 1 < length ?f1 \<or> length ?f1 - 1 = 0"
      by (cases ?f1) simp_all
  qed
  from tier1Loop_good [OF goodState_init l1]
  have g1: "goodState st1" and a1: "st_attempts st1 = map (\<lambda>a. (a, 1)) t1"
    by (simp_all add: initState_def)
  from tier2Loop_good [OF g1 l2]
  have g2: "goodState st2" and a2: "st_attempts st2 = st_attempts st1 @ map (\<lambda>a. (a, 2)) ?t2"
    by simp_all
  from tier3Loop_good [OF g2 l3]
  have none: "None \<notin> set ?sel"
    and a3: "st_attempts st = st_attempts st2 @ map (\<lambda>a. (the a, 3)) ?sel"
    by simp_all
  have m3: "mset (map the ?sel) = mset (filter (\<lambda>a. tierOf a = 3) apps)"
    using none by (rule hybridSelection_mset)
  have "st_attempts st = map (\<lambda>a. (a, 1)) t1 @ map (\<lambda>a. (a, 2)) ?t2
      @ map (\<lambda>a. (a, 3)) (map the ?sel)"
    unfolding a3 a2 a1 by (simp add: comp_def)
  with m1 m3 show ?thesis
    by (intro exI [of _ t1] exI [of _ ?t2] exI [of _ "map the ?sel"]) simp
qed

lemma attempts_sorted:
  "sorted (map snd (map (\<lambda>a. (a, 1::nat)) t1 @ map (\<lambda>a. (a, 2)) t2 @ map (\<lambda>a. (a, 3)) t3))"
  by (auto simp: sorted_append comp_def map_replicate_const)


lemma runAllocation_order:
  assumes "runAllocation ss apps w rnd = Inr st"
  shows "mset (st_attempts st) = mset (map (\<lambda>a. (a, tierOf a)) apps)"
    and "sorted (map snd (st_attempts st))"
proof -
  from runAllocation_attempts [OF assms] obtain t1 t2 t3
    where att: "st_attempts st
        = map (\<lambda>a. (a, 1)) t1 @ map (\<lambda>a. (a, 2)) t2 @ map (\<lambda>a. (a, 3)) t3"
      and m: "mset t1 = mset (filter (\<lambda>a. tierOf a = 1) apps)"
        "mset t2 = mset (filter (\<lambda>a. tierOf a = 2) apps)"
        "mset t3 = mset (filter (\<lambda>a. tierOf a = 3) apps)"
    by blast
  show "sorted (map snd (st_attempts st))"
    unfolding att by (rule attempts_sorted)
  have tag: "mset (map (\<lambda>a. (a, n)) t) = image_mset (\<lambda>a. (a, tierOf a)) (mset t)"
    if "mset t = mset (filter (\<lambda>a. tierOf a = n) apps)" for t n
  proof -
    from that have "set t = set (filter (\<lambda>a. tierOf a = n) apps)"
      by (rule mset_eq_setD)
    then have "\<forall>a \<in> set t. tierOf a = n"
      by simp
    then have "map (\<lambda>a. (a, n)) t = map (\<lambda>a. (a, tierOf a)) t"
      by simp
    then show ?thesis by (simp only: mset_map)
  qed
  have "mset (st_attempts st)
      = image_mset (\<lambda>a. (a, tierOf a)) (mset t1 + mset t2 + mset t3)"
    unfolding att
    by (simp only: mset_append tag [OF m(1)] tag [OF m(2)] tag [OF m(3)] image_mset_union
        add.assoc)
  also have "mset t1 + mset t2 + mset t3 = mset apps"
    unfolding m by (rule mset_tiers)
  finally show "mset (st_attempts st) = mset (map (\<lambda>a. (a, tierOf a)) apps)"
    by simp
qed

lemma assignSeats_cases:
  assumes "assignSeats seatList apps cfg = Inr res"
  shows "(assignments res = [] \<and> unassigned res = map app_id apps)
     \<or> (filter (\<lambda>s. \<not> isDisabled s) seatList \<noteq> [] \<and> apps \<noteq> []
        \<and> (\<exists>st. runAllocation (scoreSeats (filter (\<lambda>s. \<not> isDisabled s) seatList) (stagePosition cfg))
                   apps (case skillWeight cfg of None \<Rightarrow> 0.70 | Some v \<Rightarrow> v) (randomFn cfg) = Inr st
              \<and> assignments res = assignSeatQuality (st_assignments st)
              \<and> unassigned res = st_unassigned st
              \<and> tier2OverflowCount (stats res) = st_tier2OverflowCount st))"
  using assms
  by (auto simp: assignSeats_def Let_def split: if_splits sum.splits)






text \<open>The definitions that a concrete run of the lottery unfolds.\<close>

lemmas run_defs =
  assignSeats_def scoreSeats_def mathMax_def calculateSeatScore_def calculateDistance_def
  runAllocation_def hybridSelection_def hybridLoop_unfold allocateApp_def upto.simps
  findAndAllocateSeats_def candidateChunks_def bonusCandidates_def buildAllChunks_def
  grouped_def chunkKey_def show_int_def show_nat.simps colOr0_def scanRow_unfold js_slice_def
  getSubChunks_def mkChunk_def assignSeatQuality_def qualityOfRank_def initState_def
  applySoloBonus_def soloAdjacentIds_def soloAdjacent_def seatMap_def gridMap_def gridKey_def
  neighbourOffsets_def Let_def

lemma run1:
  "assignSeats [seatAt ''s1'' 0 0 False, seatAt ''s2'' 1 0 False]
      [mkApp ''a'' 1 False False 5 None, mkApp ''b'' 1 True False 5 None] fixedConfig
   = Inr \<lparr> assignments =
             [\<lparr> applicationId = ''b'', seatIds = [''s1''], totalScore = 100, tier = 1,
                seatQuality = None \<rparr>,
              \<lparr> applicationId = ''a'', seatIds = [''s2''], totalScore = 0, tier = 3,
                seatQuality = Some Top \<rparr>],
           unassigned = [],
           stats = \<lparr> totalSeats = 2, availableSeats = 2, totalApplications = 2,
                     totalPeopleAssigned = 2, averageScore = 50, tier1Count = 1,
                     tier2Count = 0, tier3Count = 1, tier2OverflowCount = 0 \<rparr> \<rparr>"
  by (simp add: run_defs seatAt_def mkApp_def fixedConfig_def)

text \<open>
  Claim C1. In every result that \<^verbatim>\<open>assignSeats\<close> returns, the seat-id lists of two
  different assignments have no seat id in common.
\<close>

theorem assignSeats_no_double_booking:
  assumes "assignSeats seatList apps cfg = Inr res" and "i < j" and "j < length (assignments res)"
  shows "set (seatIds (assignments res ! i)) \<inter> set (seatIds (assignments res ! j)) = {}"
proof -
  from assignSeats_cases [OF assms(1)] assms(3) obtain st
    where run: "runAllocation (scoreSeats (filter (\<lambda>s. \<not> isDisabled s) seatList) (stagePosition cfg))
                   apps (case skillWeight cfg of None \<Rightarrow> 0.70 | Some v \<Rightarrow> v) (randomFn cfg) = Inr st"
      and asg: "assignments res = assignSeatQuality (st_assignments st)"
    by auto
  have "map seatIds (assignments res) = map seatIds (st_assignments st)"
    unfolding asg by (rule assignSeatQuality_map) simp
  moreover have "disjointLists (map seatIds (st_assignments st))"
    using runAllocation_good [OF run] by (simp add: goodState_def)
  ultimately have "disjointLists (map seatIds (assignments res))"
    by simp
  with assms(2,3) have "set (map seatIds (assignments res) ! i)
      \<inter> set (map seatIds (assignments res) ! j) = {}"
    unfolding disjointLists_def by simp
  with assms(2,3) show ?thesis by simp
qed

theorem assignSeats_no_double_booking_witness:
  "assignSeats [seatAt ''s1'' 0 0 False, seatAt ''s2'' 1 0 False]
      [mkApp ''a'' 1 False False 5 None, mkApp ''b'' 1 True False 5 None] fixedConfig
   = Inr \<lparr> assignments =
             [\<lparr> applicationId = ''b'', seatIds = [''s1''], totalScore = 100, tier = 1,
                seatQuality = None \<rparr>,
              \<lparr> applicationId = ''a'', seatIds = [''s2''], totalScore = 0, tier = 3,
                seatQuality = Some Top \<rparr>],
           unassigned = [],
           stats = \<lparr> totalSeats = 2, availableSeats = 2, totalApplications = 2,
                     totalPeopleAssigned = 2, averageScore = 50, tier1Count = 1,
                     tier2Count = 0, tier3Count = 1, tier2OverflowCount = 0 \<rparr> \<rparr>
   \<and> (0::nat) < 1 \<and> set [''s1''] \<inter> set [''s2''] = {}"
  using assignSeats_no_double_booking [OF run1, of 0 1] run1 by simp

lemma run2:
  "assignSeats [gridSeat ''s1'' 0 0 ''A'' 0 0, gridSeat ''s2'' 1 0 ''A'' 0 1]
      [mkApp ''h'' 1 False False 5 None, mkApp ''g'' 2 False False 8 None] fixedConfig
   = Inr \<lparr> assignments =
             [\<lparr> applicationId = ''g'', seatIds = [''s1'', ''s2''], totalScore = 50, tier = 3,
                seatQuality = Some Top \<rparr>],
           unassigned = [''h''],
           stats = \<lparr> totalSeats = 2, availableSeats = 2, totalApplications = 2,
                     totalPeopleAssigned = 2, averageScore = 50, tier1Count = 0,
                     tier2Count = 0, tier3Count = 1, tier2OverflowCount = 0 \<rparr> \<rparr>"
  by (simp add: run_defs gridSeat_def mkApp_def fixedConfig_def upto.simps)

text \<open>
  Claim C2. In every result that \<^verbatim>\<open>assignSeats\<close> returns, every applicant either has an
  assignment with exactly as many seats as its party size, or has its id listed in
  \<open>unassigned\<close>; and every assignment belongs to an applicant and has exactly as many
  seats as that applicant's party size.
\<close>

theorem assignSeats_full_party_or_unassigned:
  assumes "assignSeats seatList apps cfg = Inr res"
  shows "(\<forall>a \<in> set apps.
            (\<exists>asg \<in> set (assignments res).
                applicationId asg = app_id a \<and> int (length (seatIds asg)) = groupSize a)
            \<or> app_id a \<in> set (unassigned res))
     \<and> (\<forall>asg \<in> set (assignments res).
            \<exists>a \<in> set apps. applicationId asg = app_id a
               \<and> int (length (seatIds asg)) = groupSize a)"
proof -
  from assignSeats_cases [OF assms]
  consider (degenerate) "assignments res = []" "unassigned res = map app_id apps"
    | (run) st where
      "runAllocation (scoreSeats (filter (\<lambda>s. \<not> isDisabled s) seatList) (stagePosition cfg))
          apps (case skillWeight cfg of None \<Rightarrow> 0.70 | Some v \<Rightarrow> v) (randomFn cfg) = Inr st"
      "assignments res = assignSeatQuality (st_assignments st)"
      "unassigned res = st_unassigned st"
    by blast
  then show ?thesis
  proof cases
    case degenerate
    then show ?thesis by simp
  next
    case run
    have g: "goodState st"
      by (rule runAllocation_good [OF run(1)])
    have "mset (map fst (st_attempts st)) = mset (map fst (map (\<lambda>a. (a, tierOf a)) apps))"
      using runAllocation_order(1) [OF run(1)] by (metis mset_map)
    then have "mset (map fst (st_attempts st)) = mset apps"
      by (simp add: comp_def)
    then have att: "fst ` set (st_attempts st) = set apps"
      by (metis mset_eq_setD set_map)
    have "map (\<lambda>x. (applicationId x, seatIds x)) (assignments res)
        = map (\<lambda>x. (applicationId x, seatIds x)) (st_assignments st)"
      unfolding run(2) by (rule assignSeatQuality_map) simp
    then have same: "(\<lambda>x. (applicationId x, seatIds x)) ` set (assignments res)
        = (\<lambda>x. (applicationId x, seatIds x)) ` set (st_assignments st)"
      by (metis set_map)
    have seated: "\<exists>asg \<in> set (assignments res).
        applicationId asg = app_id a \<and> int (length (seatIds asg)) = groupSize a"
      if "x \<in> set (st_assignments st)" "seatedAs a x" "a \<in> set apps" for x a
    proof -
      from that(1) same obtain asg where "asg \<in> set (assignments res)"
        "(applicationId asg, seatIds asg) = (applicationId x, seatIds x)"
        by (metis (no_types, lifting) image_iff)
      with that(2) show ?thesis
        by (auto simp: seatedAs_def)
    qed
    show ?thesis
    proof (intro conjI ballI)
      fix a assume a: "a \<in> set apps"
      with att obtain t where "(a, t) \<in> set (st_attempts st)"
        by force
      with g have "(\<exists>x \<in> set (st_assignments st). seatedAs a x) \<or> app_id a \<in> set (st_unassigned st)"
        unfolding goodState_def by blast
      with seated a run(3)
      show "(\<exists>asg \<in> set (assignments res).
                applicationId asg = app_id a \<and> int (length (seatIds asg)) = groupSize a)
            \<or> app_id a \<in> set (unassigned res)"
        by auto
    next
      fix asg assume "asg \<in> set (assignments res)"
      with same obtain x where x: "x \<in> set (st_assignments st)"
        "(applicationId asg, seatIds asg) = (applicationId x, seatIds x)"
        by (metis (no_types, lifting) image_iff)
      with g obtain a t where at: "(a, t) \<in> set (st_attempts st)" "seatedAs a x"
        unfolding goodState_def by blast
      with att have "a \<in> set apps" by force
      with at(2) x(2)
      show "\<exists>a \<in> set apps. applicationId asg = app_id a
               \<and> int (length (seatIds asg)) = groupSize a"
        by (auto simp: seatedAs_def)
    qed
  qed
qed

theorem assignSeats_full_party_or_unassigned_witness:
  "assignSeats [gridSeat ''s1'' 0 0 ''A'' 0 0, gridSeat ''s2'' 1 0 ''A'' 0 1]
      [mkApp ''h'' 1 False False 5 None, mkApp ''g'' 2 False False 8 None] fixedConfig
   = Inr \<lparr> assignments =
             [\<lparr> applicationId = ''g'', seatIds = [''s1'', ''s2''], totalScore = 50, tier = 3,
                seatQuality = Some Top \<rparr>],
           unassigned = [''h''],
           stats = \<lparr> totalSeats = 2, availableSeats = 2, totalApplications = 2,
                     totalPeopleAssigned = 2, averageScore = 50, tier1Count = 0,
                     tier2Count = 0, tier3Count = 1, tier2OverflowCount = 0 \<rparr> \<rparr>
   \<and> mkApp ''g'' 2 False False 8 None
        \<in> set [mkApp ''h'' 1 False False 5 None, mkApp ''g'' 2 False False 8 None]
   \<and> int (length [''s1'', ''s2'']) = groupSize (mkApp ''g'' 2 False False 8 None)
   \<and> app_id (mkApp ''h'' 1 False False 5 None) \<in> set [''h'']"
  using assignSeats_full_party_or_unassigned [OF run2] run2 by (simp add: mkApp_def)




subsection \<open>Runs that return\<close>

text \<open>
  The TypeError is the only failure of the model. A run returns a result whenever the
  random source draws from \<open>[0, 1)\<close> and every party size is at least \<open>1\<close>; a party size
  of \<open>0\<close> raises the error as soon as a seat is available.
\<close>

lemma getSubChunks_total:
  assumes "1 \<le> gs"
  shows "\<exists>subs. getSubChunks fl chunk gs = Inr subs"
proof (cases "int (length (seats chunk)) < gs")
  case True
  then show ?thesis by (simp add: getSubChunks_def)
next
  case False
  have "[] \<notin> set (map (\<lambda>i. js_slice (seats chunk) i (i + gs))
                      [0 .. int (length (seats chunk)) - gs])"
  proof
    assume "[] \<in> set (map (\<lambda>i. js_slice (seats chunk) i (i + gs))
                      [0 .. int (length (seats chunk)) - gs])"
    then obtain i where i: "0 \<le> i" "i \<le> int (length (seats chunk)) - gs"
      "js_slice (seats chunk) i (i + gs) = []"
      by auto
    from i(1,2) assms have "length (js_slice (seats chunk) i (i + gs)) = nat gs"
      by (intro js_slice_window) simp_all
    with i(3) assms show False by simp
  qed
  with False show ?thesis
    by (simp add: getSubChunks_def Let_def)
qed

lemma collectSubChunks_total:
  "1 \<le> gs \<Longrightarrow> \<exists>cands. collectSubChunks fl gs chunks = Inr cands"
proof (induction chunks)
  case Nil
  then show ?case by simp
next
  case (Cons chunk rest)
  from getSubChunks_total [OF Cons.prems, where fl = fl and chunk = chunk] Cons.IH [OF Cons.prems]
  show ?case by auto
qed

lemma findAndAllocateSeats_total:
  assumes "1 \<le> gs"
  shows "\<exists>r. findAndAllocateSeats fl gs ss assigned solo = Inr r"
  using collectSubChunks_total [OF assms, where fl = fl and chunks = "buildAllChunks fl (filter (\<lambda>s. seat_id s \<notin> assigned) ss)"]
  by (auto simp: findAndAllocateSeats_def candidateChunks_def Let_def)

lemma allocateApp_total:
  assumes "1 \<le> groupSize app"
  shows "\<exists>ok st'. allocateApp ss app t st = Inr (ok, st')"
  using findAndAllocateSeats_total [OF assms, of id ss "st_assignedSeatIds st"
      "if groupSize app = 1 then Some (st_soloSeatIds st) else None"]
  by (auto simp: allocateApp_def split: option.splits)

lemma tier1Loop_total:
  "\<forall>a \<in> set apps. 1 \<le> groupSize a \<Longrightarrow> \<exists>st'. tier1Loop ss apps st = Inr st'"
proof (induction apps arbitrary: st)
  case Nil
  then show ?case by simp
next
  case (Cons app rest)
  from Cons.prems have "1 \<le> groupSize app" by simp
  from allocateApp_total [OF this, of ss 1 st] obtain ok st1
    where r: "allocateApp ss app 1 st = Inr (ok, st1)" by blast
  from Cons.prems have rest: "\<forall>a \<in> set rest. 1 \<le> groupSize a" by simp
  show ?case
    using r Cons.IH [OF rest] by (cases ok) simp_all
qed

lemma tier2Loop_total:
  "\<forall>a \<in> set apps. 1 \<le> groupSize a \<Longrightarrow> \<exists>st'. tier2Loop ss apps st = Inr st'"
proof (induction apps arbitrary: st)
  case Nil
  then show ?case by simp
next
  case (Cons app rest)
  from Cons.prems have "1 \<le> groupSize app" by simp
  from allocateApp_total [OF this, of ss 2 st] obtain ok st1
    where r: "allocateApp ss app 2 st = Inr (ok, st1)" by blast
  from Cons.prems have rest: "\<forall>a \<in> set rest. 1 \<le> groupSize a" by simp
  show ?case
    using r Cons.IH [OF rest] by (cases ok) simp_all
qed

lemma tier3Loop_total:
  "\<forall>x \<in> set sel. \<exists>a. x = Some a \<and> 1 \<le> groupSize a \<Longrightarrow> \<exists>st'. tier3Loop ss sel st = Inr st'"
proof (induction sel arbitrary: st)
  case Nil
  then show ?case by simp
next
  case (Cons x rest)
  from Cons.prems obtain app where x: "x = Some app" "1 \<le> groupSize app" by auto
  from allocateApp_total [OF x(2), of ss 3 st] obtain ok st1
    where r: "allocateApp ss app 3 st = Inr (ok, st1)" by blast
  from Cons.prems have rest: "\<forall>x \<in> set rest. \<exists>a. x = Some a \<and> 1 \<le> groupSize a" by simp
  show ?case
    using r x(1) Cons.IH [OF rest] by (cases ok) simp_all
qed

lemma floor_draw_range:
  assumes "0 \<le> r" "r < 1" "0 < n"
  shows "0 \<le> \<lfloor>r * real n\<rfloor>" and "\<lfloor>r * real n\<rfloor> < int n"
proof -
  from assms(1) show "0 \<le> \<lfloor>r * real n\<rfloor>" by simp
  from assms(2,3) have "r * real n < real n" by simp
  then show "\<lfloor>r * real n\<rfloor> < int n"
    by (simp add: floor_less_iff)
qed

lemma fisherYates_total:
  assumes "\<forall>n. 0 \<le> rnd n \<and> rnd n < 1"
  shows "i < length xs \<or> i = 0 \<Longrightarrow> \<exists>ys k'. fisherYates rnd k i xs = Inr (ys, k')"
proof (induction i arbitrary: xs k)
  case 0
  then show ?case by simp
next
  case (Suc i)
  let ?j = "\<lfloor>rnd k * real (Suc i + 1)\<rfloor>"
  from assms have r: "0 \<le> rnd k" "rnd k < 1" by simp_all
  from floor_draw_range [OF r, of "Suc i + 1"] have j: "0 \<le> ?j" "?j < int (Suc i + 1)"
    by simp_all
  from Suc.prems have si: "Suc i < length xs" by simp
  with j have jl: "?j < int (length xs)" by linarith
  have "\<exists>ys k'. fisherYates rnd (k + 1) i (xs[Suc i := xs ! nat ?j, nat ?j := xs ! Suc i])
      = Inr (ys, k')"
    using si by (intro Suc.IH) simp
  with j(1) jl show ?case
    by (simp add: Let_def)
qed

lemma hybridLoop_defined:
  "\<forall>n. 0 \<le> rnd n \<and> rnd n < 1 \<Longrightarrow> None \<notin> set selected
   \<Longrightarrow> None \<notin> set (fst (hybridLoop w rnd k remaining selected))"
proof (induction w rnd k remaining selected rule: hybridLoop.induct)
  case (1 w rnd k remaining selected)
  let ?x = "\<lfloor>rnd (k + 1) * real (length remaining)\<rfloor>"
  show ?case
  proof (cases "remaining = []")
    case True
    with "1.prems"(2) show ?thesis
      by (subst hybridLoop_unfold) simp
  next
    case ne: False
    show ?thesis
    proof (cases "rnd k < w")
      case True
      have "None \<notin> set (fst (hybridLoop w rnd (k + 1) (tl remaining)
          (selected @ [Some (hd remaining)])))"
        using "1.prems" by (intro "1.IH"(1) [OF ne True]) simp_all
      with ne True show ?thesis
        by (subst hybridLoop_unfold) simp
    next
      case luck: False
      from "1.prems"(1) have r: "0 \<le> rnd (k + 1)" "rnd (k + 1) < 1" by simp_all
      from ne have "0 < length remaining" by simp
      from floor_draw_range [OF r this] have x: "0 \<le> ?x \<and> ?x < int (length remaining)"
        by simp
      have "None \<notin> set (fst (hybridLoop w rnd (k + 2)
          (take (nat ?x) remaining @ drop (Suc (nat ?x)) remaining)
          (selected @ [Some (remaining ! nat ?x)])))"
        using "1.prems" by (intro "1.IH"(2) [OF ne luck refl x]) simp_all
      with ne luck x show ?thesis
        by (subst hybridLoop_unfold) simp
    qed
  qed
qed


lemma hybridSelection_members:
  assumes "\<forall>n. 0 \<le> rnd n \<and> rnd n < 1" and "x \<in> set (fst (hybridSelection candidates w rnd k))"
  shows "\<exists>a \<in> set candidates. x = Some a"
proof -
  let ?sel = "fst (hybridSelection candidates w rnd k)"
  have none: "None \<notin> set ?sel"
    unfolding hybridSelection_def by (rule hybridLoop_defined [OF assms(1)]) simp
  from hybridSelection_mset [OF none] have m: "set (map the ?sel) = set candidates"
    by (rule mset_eq_setD)
  from assms(2) none have "x \<noteq> None" by metis
  then obtain a where a: "x = Some a" by (cases x) simp_all
  with assms(2) have "the (Some a) \<in> the ` set ?sel" by (intro imageI) simp
  with m have "a \<in> set candidates" by simp
  with a show ?thesis by blast
qed

lemma runAllocation_returns:
  assumes "\<forall>n. 0 \<le> rnd n \<and> rnd n < 1" and "\<forall>a \<in> set apps. 1 \<le> groupSize a"
  shows "\<exists>st. runAllocation ss apps w rnd = Inr st"
proof -
  let ?f1 = "filter (\<lambda>a. tierOf a = 1) apps"
  let ?t2 = "sort_key (\<lambda>a. - pastScore a) (filter (\<lambda>a. tierOf a = 2) apps)"
  have "length ?f1 - 1 < length ?f1 \<or> length ?f1 - 1 = 0"
    by (cases ?f1) simp_all
  from fisherYates_total [OF assms(1) this, of 0] obtain t1 k
    where fy: "fisherYates rnd 0 (length ?f1 - 1) ?f1 = Inr (t1, k)"
    by blast
  have "mset t1 = mset ?f1"
    by (rule fisherYates_mset [OF _ fy]) (cases ?f1, simp_all)
  then have "set t1 = set ?f1"
    by (rule mset_eq_setD)
  with assms(2) have "\<forall>a \<in> set t1. 1 \<le> groupSize a" by simp
  from tier1Loop_total [OF this, of ss initState] obtain st1
    where l1: "tier1Loop ss t1 initState = Inr st1" by blast
  from assms(2) have "\<forall>a \<in> set ?t2. 1 \<le> groupSize a" by simp
  from tier2Loop_total [OF this, of ss st1] obtain st2
    where l2: "tier2Loop ss ?t2 st1 = Inr st2" by blast
  let ?sel = "fst (hybridSelection (filter (\<lambda>a. tierOf a = 3) apps) w rnd k)"
  have "\<forall>x \<in> set ?sel. \<exists>a. x = Some a \<and> 1 \<le> groupSize a"
  proof
    fix x assume "x \<in> set ?sel"
    from hybridSelection_members [OF assms(1) this] assms(2)
    show "\<exists>a. x = Some a \<and> 1 \<le> groupSize a" by auto
  qed
  from tier3Loop_total [OF this, of ss st2] obtain st
    where l3: "tier3Loop ss ?sel st2 = Inr st" by blast
  from fy l1 l2 l3 show ?thesis
    by (simp add: runAllocation_def classify_filter)
qed

lemma assignSeats_returns:
  assumes "\<forall>n. 0 \<le> randomFn cfg n \<and> randomFn cfg n < 1"
    and "\<forall>a \<in> set apps. 1 \<le> groupSize a"
  shows "\<exists>res. assignSeats seatList apps cfg = Inr res"
  using runAllocation_returns [OF assms,
      of "scoreSeats (filter (\<lambda>s. \<not> isDisabled s) seatList) (stagePosition cfg)"
         "case skillWeight cfg of None \<Rightarrow> 0.70 | Some v \<Rightarrow> v"]
  by (auto simp: assignSeats_def Let_def)

lemma assignSeats_zero_party_raises:
  "assignSeats [seatAt ''s1'' 0 0 False] [mkApp ''a'' 0 False False 5 None] fixedConfig
     = Inl TypeError"
  by (simp add: run_defs seatAt_def mkApp_def fixedConfig_def)

end
